theory Spec2Isabelle
  imports Main
begin

section \<open>Messages and events\<close>

text \<open>
  The client of \<^verbatim>\<open>graphql_transport_ws.ts\<close> is modelled by explicit state passing: every
  method of the class \<^verbatim>\<open>GraphQLTransportWs\<close> and every closure it creates is a function from
  the client's state to its new state.  Calls into code the client does not own (listeners
  and callbacks supplied by the caller) are recorded, in order, in the field \<open>trace\<close>.
  An asynchronous function is run to its end at the place where it is called: the
  interleaving of microtasks is not part of the model.
\<close>

type_synonym ident = string
type_synonym json = string

text \<open>
  Modelled from the spec: the message types of \<^verbatim>\<open>types.ts\<close>, which is not among the
  sources.  Section 3 of the specification lists eight variants, four of them with an
  identifier.
\<close>

datatype message =
    ConnectionInit "json option"
  | ConnectionAck "json option"
  | Ping "json option"
  | Pong "json option"
  | Subscribe ident json
  | Next ident json
  | Error ident "json list"
  | Complete ident

text \<open>What the property accesses \<^verbatim>\<open>data.id\<close> and \<^verbatim>\<open>data.payload\<close> read.\<close>

datatype val = Undefined | Json json | Errors "json list"

fun msg_id :: "message \<Rightarrow> ident option" where
  "msg_id (Subscribe i p) = Some i"
| "msg_id (Next i p) = Some i"
| "msg_id (Error i p) = Some i"
| "msg_id (Complete i) = Some i"
| "msg_id m = None"

fun opt_val :: "json option \<Rightarrow> val" where
  "opt_val None = Undefined"
| "opt_val (Some j) = Json j"

fun msg_payload :: "message \<Rightarrow> val" where
  "msg_payload (ConnectionInit p) = opt_val p"
| "msg_payload (ConnectionAck p) = opt_val p"
| "msg_payload (Ping p) = opt_val p"
| "msg_payload (Pong p) = opt_val p"
| "msg_payload (Subscribe i p) = Json p"
| "msg_payload (Next i p) = Json p"
| "msg_payload (Error i p) = Errors p"
| "msg_payload (Complete i) = Undefined"

text \<open>The \<^verbatim>\<open>data\<close> of a \<^verbatim>\<open>MessageEvent\<close>: a string or a decoded message.\<close>

datatype data = Str string | Msg message

fun data_id :: "data \<Rightarrow> ident option" where
  "data_id (Str t) = None"
| "data_id (Msg m) = msg_id m"

fun data_payload :: "data \<Rightarrow> val" where
  "data_payload (Str t) = Undefined"
| "data_payload (Msg m) = msg_payload m"

record event =
  ev_type :: string
  ev_data :: data

text \<open>
  Modelled from the spec: the constant \<^verbatim>\<open>UNKNOWN\<close> of \<^verbatim>\<open>constants.ts\<close>, which is not among
  the sources; the specification names the event \<^verbatim>\<open>unknown\<close>.
\<close>

definition UNKNOWN :: string where
  "UNKNOWN = ''unknown''"

section \<open>Callbacks, subscriptions and listeners\<close>

text \<open>
  A function supplied by the caller is known by a tag only.  \<open>Throws\<close> stands for a function
  whose call throws, or whose promise rejects.
\<close>

datatype callback = Returns nat | Throws nat

fun returns :: "callback \<Rightarrow> bool" where
  "returns (Returns n) = True"
| "returns (Throws n) = False"

text \<open>
  The variables that the closures of one \<^verbatim>\<open>subscribe\<close> call capture.  \<open>sub_key\<close> counts the
  \<^verbatim>\<open>subscribe\<close> calls: it keeps the closures of two calls apart even if everything else
  they capture is equal.
\<close>

record subscription =
  sub_key :: nat
  sub_id :: ident
  sub_onNext :: "callback option"
  sub_onError :: "callback option"
  sub_onComplete :: "callback option"
  sub_dispose :: "nat option"

datatype listener =
    NextHandler subscription
  | ErrorHandler subscription
  | CompletedHandler subscription
  | External nat

text \<open>What the client does that its environment can observe, in order.\<close>

datatype effect =
    Emitted event
  | Invoked listener event
  | SlotInvoked string callback event
  | OnNext subscription callback val
  | OnError subscription callback val
  | OnComplete subscription callback
  | Disposed subscription nat
  | SenderCalled message

section \<open>The outbound sender\<close>

text \<open>
  Modelled from the spec: \<^verbatim>\<open>Sender\<close> and \<^verbatim>\<open>SenderImpl\<close> of \<^verbatim>\<open>utils.ts\<close>, which is not among
  the sources.  Section 4.2 of the specification: while the transport is connecting a frame
  is appended to the pending-send queue, while it is open the frame is transmitted at once,
  and while it is closing or closed the frame is discarded.  \<^verbatim>\<open>subscribe\<close> returns a disposer
  that cancels the queued frame if it is invoked before the frame is transmitted.  When
  the transport becomes ready the queue is flushed once, first in first out, and the
  cancelled entries are skipped.
\<close>

datatype ready_state = CONNECTING | OPEN | CLOSING | CLOSED

record pending =
  p_token :: nat
  p_frame :: message
  p_cancelled :: bool

record sender_state =
  readyState :: ready_state
  queue :: "pending list"
  transmitted :: "message list"
  issued :: nat

definition send :: "message \<Rightarrow> sender_state \<Rightarrow> nat \<times> sender_state" where
  "send frame sd =
     (let token = issued sd; sd1 = sd\<lparr>issued := Suc token\<rparr> in
      case readyState sd of
        CONNECTING \<Rightarrow>
          (token, sd1\<lparr>queue := queue sd @
             [\<lparr>p_token = token, p_frame = frame, p_cancelled = False\<rparr>]\<rparr>)
      | OPEN \<Rightarrow> (token, sd1\<lparr>transmitted := transmitted sd @ [frame]\<rparr>)
      | CLOSING \<Rightarrow> (token, sd1)
      | CLOSED \<Rightarrow> (token, sd1))"

definition sender_subscribe :: "ident \<Rightarrow> json \<Rightarrow> sender_state \<Rightarrow> nat option \<times> sender_state" where
  "sender_subscribe i params sd =
     (let (token, sd1) = send (Subscribe i params) sd in (Some token, sd1))"

definition dispose :: "nat \<Rightarrow> sender_state \<Rightarrow> sender_state" where
  "dispose token sd =
     sd\<lparr>queue := map (\<lambda>e. if p_token e = token then e\<lparr>p_cancelled := True\<rparr> else e) (queue sd)\<rparr>"

definition flush :: "sender_state \<Rightarrow> sender_state" where
  "flush sd =
     sd\<lparr>transmitted := transmitted sd @ map p_frame (filter (\<lambda>e. \<not> p_cancelled e) (queue sd)),
        queue := []\<rparr>"

definition transport_open :: "sender_state \<Rightarrow> sender_state" where
  "transport_open sd =
     (if readyState sd = CONNECTING then flush (sd\<lparr>readyState := OPEN\<rparr>) else sd)"

definition transport_close :: "sender_state \<Rightarrow> sender_state" where
  "transport_close sd = sd\<lparr>readyState := CLOSED\<rparr>"

section \<open>The client\<close>

text \<open>
  The fields of \<^verbatim>\<open>GraphQLTransportWs\<close>.  \<open>eventTarget\<close> is the listener list of
  \<^verbatim>\<open>#eventTarget\<close>: type, callback and the \<^verbatim>\<open>once\<close> flag, in the order of registration.
  Of \<^verbatim>\<open>socket\<close>, the model keeps whether \<^verbatim>\<open>#messageHandler\<close> listens to its \<^verbatim>\<open>message\<close>
  events and the close handlers of the subscriptions that listen to its \<^verbatim>\<open>close\<close> event;
  its sending side is part of \<open>sender\<close>.
\<close>

record client =
  sender :: sender_state
  eventTarget :: "(string \<times> listener \<times> bool) list"
  completedIds :: "ident set"
  socket_message :: bool
  socket_close :: "subscription list"
  onconnectioninit :: "callback option"
  onconnectionack :: "callback option"
  onping :: "callback option"
  onpong :: "callback option"
  onsubscribe :: "callback option"
  onnext :: "callback option"
  onerror :: "callback option"
  oncomplete :: "callback option"
  subscriptions :: nat
  trace :: "effect list"

definition new_client :: "ready_state \<Rightarrow> client" where
  "new_client rs =
     \<lparr>sender = \<lparr>readyState = rs, queue = [], transmitted = [], issued = 0\<rparr>,
      eventTarget = [], completedIds = {}, socket_message = False, socket_close = [],
      onconnectioninit = None, onconnectionack = None, onping = None, onpong = None,
      onsubscribe = None, onnext = None, onerror = None, oncomplete = None,
      subscriptions = 0, trace = []\<rparr>"

definition emit :: "effect \<Rightarrow> client \<Rightarrow> client" where
  "emit e s = s\<lparr>trace := trace s @ [e]\<rparr>"

definition sender_call :: "message \<Rightarrow> client \<Rightarrow> client" where
  "sender_call frame s = emit (SenderCalled frame) (s\<lparr>sender := snd (send frame (sender s))\<rparr>)"

subsection \<open>Sending\<close>

definition connectionInit :: "json option \<Rightarrow> client \<Rightarrow> client" where
  "connectionInit p s = sender_call (ConnectionInit p) s"

definition connectionAck :: "json option \<Rightarrow> client \<Rightarrow> client" where
  "connectionAck p s = sender_call (ConnectionAck p) s"

definition ping :: "json option \<Rightarrow> client \<Rightarrow> client" where
  "ping p s = sender_call (Ping p) s"

definition pong :: "json option \<Rightarrow> client \<Rightarrow> client" where
  "pong p s = sender_call (Pong p) s"

definition "next" :: "ident \<Rightarrow> json \<Rightarrow> client \<Rightarrow> client" where
  "next i p s = sender_call (Next i p) s"

definition error :: "ident \<Rightarrow> json list \<Rightarrow> client \<Rightarrow> client" where
  "error i p s =
     (if i \<notin> completedIds s
      then sender_call (Error i p) (s\<lparr>completedIds := insert i (completedIds s)\<rparr>)
      else s)"

definition complete :: "ident \<Rightarrow> client \<Rightarrow> client" where
  "complete i s =
     (if i \<notin> completedIds s
      then sender_call (Complete i) (s\<lparr>completedIds := insert i (completedIds s)\<rparr>)
      else s)"

subsection \<open>The listener list\<close>

text \<open>
  \<^verbatim>\<open>EventTarget\<close> keeps one entry for a type and a callback: adding the pair again changes
  nothing.  Of the options of \<^verbatim>\<open>addEventListener\<close> the entries keep \<^verbatim>\<open>once\<close>, the only one
  that the client itself passes; listeners are taken to be added without \<^verbatim>\<open>capture\<close>.
\<close>

definition registered :: "string \<Rightarrow> listener \<Rightarrow> (string \<times> listener \<times> bool) list \<Rightarrow> bool" where
  "registered ty l regs = list_ex (\<lambda>(ty', l', once). ty' = ty \<and> l' = l) regs"

definition add_listener ::
  "string \<Rightarrow> listener \<Rightarrow> bool \<Rightarrow> (string \<times> listener \<times> bool) list \<Rightarrow> (string \<times> listener \<times> bool) list" where
  "add_listener ty l once regs = (if registered ty l regs then regs else regs @ [(ty, l, once)])"

definition remove_listener ::
  "string \<Rightarrow> listener \<Rightarrow> (string \<times> listener \<times> bool) list \<Rightarrow> (string \<times> listener \<times> bool) list" where
  "remove_listener ty l regs = filter (\<lambda>(ty', l', once). \<not> (ty' = ty \<and> l' = l)) regs"

text \<open>
  The public \<^verbatim>\<open>addEventListener\<close> adds the listener to \<^verbatim>\<open>#eventTarget\<close> and then
  \<^verbatim>\<open>#messageHandler\<close> to the socket, which keeps one entry for it however often it is added.
\<close>

definition addEventListener :: "string \<Rightarrow> listener \<Rightarrow> bool \<Rightarrow> client \<Rightarrow> client" where
  "addEventListener ty l once s =
     s\<lparr>eventTarget := add_listener ty l once (eventTarget s), socket_message := True\<rparr>"

definition removeEventListener :: "string \<Rightarrow> listener \<Rightarrow> client \<Rightarrow> client" where
  "removeEventListener ty l s = s\<lparr>eventTarget := remove_listener ty l (eventTarget s)\<rparr>"

subsection \<open>The closures of a subscription\<close>

text \<open>
  \<open>nextHandler\<close>, \<open>errorHandler\<close> and \<open>completeHandler\<close> are the functions that
  \<^verbatim>\<open>createNextHandler\<close>, \<^verbatim>\<open>createErrorHandler\<close> and \<^verbatim>\<open>createCompleteHandler\<close> return for the
  callbacks and the identifier of a subscription; \<open>completedHandler\<close> and \<open>closeHandler\<close> are
  the ones that \<^verbatim>\<open>createCompletedHandler\<close> and \<^verbatim>\<open>createCloseHandler\<close> return inside
  \<^verbatim>\<open>subscribe\<close>.  The Boolean of a result says whether the promise of the function is
  fulfilled; it is rejected when the callback that the function awaits throws.
  \<open>call_back\<close> is the optional call \<^verbatim>\<open>callback?.call(...)\<close>.
\<close>

definition call_back :: "callback option \<Rightarrow> (callback \<Rightarrow> effect) \<Rightarrow> client \<Rightarrow> bool \<times> client" where
  "call_back cb e s = (case cb of None \<Rightarrow> (True, s) | Some f \<Rightarrow> (returns f, emit (e f) s))"

definition nextHandler :: "subscription \<Rightarrow> event \<Rightarrow> client \<Rightarrow> bool \<times> client" where
  "nextHandler sub ev s =
     (if data_id (ev_data ev) = Some (sub_id sub)
      then call_back (sub_onNext sub) (\<lambda>f. OnNext sub f (data_payload (ev_data ev))) s
      else (True, s))"

definition errorHandler :: "subscription \<Rightarrow> event \<Rightarrow> client \<Rightarrow> bool \<times> client" where
  "errorHandler sub ev s =
     (if data_id (ev_data ev) = Some (sub_id sub)
      then call_back (sub_onError sub) (\<lambda>f. OnError sub f (data_payload (ev_data ev))) s
      else (True, s))"

definition completeHandler :: "subscription \<Rightarrow> event \<Rightarrow> client \<Rightarrow> bool \<times> client" where
  "completeHandler sub ev s =
     (if data_id (ev_data ev) = Some (sub_id sub)
      then call_back (sub_onComplete sub) (\<lambda>f. OnComplete sub f) s
      else (True, s))"

definition disposeSubscribeMessageSending :: "subscription \<Rightarrow> client \<Rightarrow> client" where
  "disposeSubscribeMessageSending sub s =
     (case sub_dispose sub of
        None \<Rightarrow> s
      | Some token \<Rightarrow> emit (Disposed sub token) (s\<lparr>sender := dispose token (sender s)\<rparr>))"

definition completedHandler :: "subscription \<Rightarrow> event \<Rightarrow> client \<Rightarrow> bool \<times> client" where
  "completedHandler sub ev s =
     (let s1 = disposeSubscribeMessageSending sub s;
          (ok, s2) = completeHandler sub ev s1
      in if ok
         then (True, removeEventListener ''error'' (ErrorHandler sub)
                       (removeEventListener ''next'' (NextHandler sub) s2))
         else (False, s2))"

definition closeHandler :: "subscription \<Rightarrow> client \<Rightarrow> client" where
  "closeHandler sub s =
     removeEventListener ''complete'' (CompletedHandler sub)
       (removeEventListener ''error'' (ErrorHandler sub)
         (removeEventListener ''next'' (NextHandler sub) s))"

subsection \<open>Dispatch\<close>

text \<open>
  \<^verbatim>\<open>dispatchEvent\<close> of the platform: the listeners of the event's type, as registered when
  the dispatch starts, are invoked in order.  A listener removed in the meantime is
  skipped, a \<^verbatim>\<open>once\<close> listener is removed before it is invoked, and what a listener throws
  or returns is dropped.
\<close>

fun invoke :: "listener \<Rightarrow> event \<Rightarrow> client \<Rightarrow> client" where
  "invoke (NextHandler sub) ev s = snd (nextHandler sub ev s)"
| "invoke (ErrorHandler sub) ev s = snd (errorHandler sub ev s)"
| "invoke (CompletedHandler sub) ev s = snd (completedHandler sub ev s)"
| "invoke (External n) ev s = s"

definition inner_invoke :: "event \<Rightarrow> string \<times> listener \<times> bool \<Rightarrow> client \<Rightarrow> client" where
  "inner_invoke ev r s =
     (case r of (ty, l, once) \<Rightarrow>
        if r \<in> set (eventTarget s)
        then invoke l ev (emit (Invoked l ev) (if once then removeEventListener ty l s else s))
        else s)"

definition dispatchEvent :: "event \<Rightarrow> client \<Rightarrow> client" where
  "dispatchEvent ev s =
     fold (inner_invoke ev)
       (filter (\<lambda>(ty, l, once). ty = ev_type ev) (eventTarget s))
       (emit (Emitted ev) s)"

text \<open>\<^verbatim>\<open>await this.onnext?.(event)\<close> and its seven siblings.\<close>

definition slot_call :: "string \<Rightarrow> callback option \<Rightarrow> event \<Rightarrow> client \<Rightarrow> bool \<times> client" where
  "slot_call name slot ev s = call_back slot (\<lambda>f. SlotInvoked name f ev) s"

subsection \<open>The message dispatcher\<close>

text \<open>
  The nine handlers that \<^verbatim>\<open>createMessageDispatcher\<close> returns; its \<^verbatim>\<open>ctx.blocklist\<close> is the set
  \<^verbatim>\<open>#completedIds\<close> of the client.  \<open>blocked\<close> is \<^verbatim>\<open>ctx.blocklist.has(ev.data.id)\<close> and \<open>block\<close>
  is \<^verbatim>\<open>ctx.blocklist.add(ev.data.id)\<close>; the three handlers that use them are called with
  messages that have an identifier.
\<close>

definition blocked :: "event \<Rightarrow> client \<Rightarrow> bool" where
  "blocked ev s = (case data_id (ev_data ev) of None \<Rightarrow> False | Some i \<Rightarrow> i \<in> completedIds s)"

definition block :: "event \<Rightarrow> client \<Rightarrow> client" where
  "block ev s =
     (case data_id (ev_data ev) of
        None \<Rightarrow> s
      | Some i \<Rightarrow> s\<lparr>completedIds := insert i (completedIds s)\<rparr>)"

definition onConnectionInit :: "event \<Rightarrow> client \<Rightarrow> bool \<times> client" where
  "onConnectionInit ev s =
     (let event = \<lparr>ev_type = ''connectioninit'', ev_data = ev_data ev\<rparr>;
          s1 = dispatchEvent event s
      in slot_call ''onconnectioninit'' (onconnectioninit s1) event s1)"

definition onConnectionAck :: "event \<Rightarrow> client \<Rightarrow> bool \<times> client" where
  "onConnectionAck ev s =
     (let event = \<lparr>ev_type = ''connectionack'', ev_data = ev_data ev\<rparr>;
          s1 = dispatchEvent event s
      in slot_call ''onconnectionack'' (onconnectionack s1) event s1)"

definition onPing :: "event \<Rightarrow> client \<Rightarrow> bool \<times> client" where
  "onPing ev s =
     (let event = \<lparr>ev_type = ''ping'', ev_data = ev_data ev\<rparr>;
          s1 = dispatchEvent event s
      in slot_call ''onping'' (onping s1) event s1)"

definition onPong :: "event \<Rightarrow> client \<Rightarrow> bool \<times> client" where
  "onPong ev s =
     (let event = \<lparr>ev_type = ''pong'', ev_data = ev_data ev\<rparr>;
          s1 = dispatchEvent event s
      in slot_call ''onpong'' (onpong s1) event s1)"

definition onSubscribe :: "event \<Rightarrow> client \<Rightarrow> bool \<times> client" where
  "onSubscribe ev s =
     (let event = \<lparr>ev_type = ''subscribe'', ev_data = ev_data ev\<rparr>;
          s1 = dispatchEvent event s
      in slot_call ''onsubscribe'' (onsubscribe s1) event s1)"

definition onNext :: "event \<Rightarrow> client \<Rightarrow> bool \<times> client" where
  "onNext ev s =
     (if \<not> blocked ev s
      then let event = \<lparr>ev_type = ''next'', ev_data = ev_data ev\<rparr>;
               s1 = dispatchEvent event s
           in slot_call ''onnext'' (onnext s1) event s1
      else (True, s))"

definition onError :: "event \<Rightarrow> client \<Rightarrow> bool \<times> client" where
  "onError ev s =
     (if \<not> blocked ev s
      then let event = \<lparr>ev_type = ''error'', ev_data = ev_data ev\<rparr>;
               s1 = dispatchEvent event s
           in slot_call ''onerror'' (onerror s1) event s1
      else (True, s))"

definition onComplete :: "event \<Rightarrow> client \<Rightarrow> bool \<times> client" where
  "onComplete ev s =
     (if \<not> blocked ev s
      then let s0 = block ev s;
               event = \<lparr>ev_type = ''complete'', ev_data = ev_data ev\<rparr>;
               s1 = dispatchEvent event s0
           in slot_call ''oncomplete'' (oncomplete s1) event s1
      else (True, s))"

definition onUnknown :: "event \<Rightarrow> client \<Rightarrow> client" where
  "onUnknown ev s = dispatchEvent \<lparr>ev_type = UNKNOWN, ev_data = ev_data ev\<rparr> s"

subsection \<open>The handler of the socket's messages\<close>

text \<open>
  \<open>messageHandler\<close> is the function that \<^verbatim>\<open>createMessageEventHandler\<close> returns for the
  handlers of the dispatcher, the field \<^verbatim>\<open>#messageHandler\<close> of the client.
  \<^verbatim>\<open>parseMessage\<close> of \<^verbatim>\<open>parse.ts\<close> is not among the sources: it is the parameter \<open>parse\<close>,
  which gives the decoded message or the description of the failure.  The result says
  whether the promise of the handler is fulfilled (\<open>True\<close>) or rejected.
\<close>

definition messageHandler :: "(string \<Rightarrow> string + message) \<Rightarrow> string \<Rightarrow> client \<Rightarrow> bool \<times> client" where
  "messageHandler parse raw s =
     (case parse raw of
        Inl description \<Rightarrow> (True, onUnknown \<lparr>ev_type = ''message'', ev_data = Str description\<rparr> s)
      | Inr message \<Rightarrow>
          (let deserializedMessageEvent = \<lparr>ev_type = ''message'', ev_data = Msg message\<rparr> in
           case message of
             ConnectionInit p \<Rightarrow> onConnectionInit deserializedMessageEvent s
           | ConnectionAck p \<Rightarrow> onConnectionAck deserializedMessageEvent s
           | Ping p \<Rightarrow> onPing deserializedMessageEvent s
           | Pong p \<Rightarrow> onPong deserializedMessageEvent s
           | Subscribe i p \<Rightarrow> onSubscribe deserializedMessageEvent s
           | Next i p \<Rightarrow> onNext deserializedMessageEvent s
           | Error i p \<Rightarrow> onError deserializedMessageEvent s
           | Complete i \<Rightarrow> onComplete deserializedMessageEvent s))"

subsection \<open>Subscribing\<close>

text \<open>
  \<open>uuid\<close> is the result of \<^verbatim>\<open>crypto.randomUUID()\<close>.  The closures read the disposer when they
  run, which is after \<^verbatim>\<open>subscribe\<close> has returned: the record they capture holds the value
  that the call of the sender at the end of \<^verbatim>\<open>subscribe\<close> returns.
\<close>

definition subscribe ::
  "ident \<Rightarrow> json \<Rightarrow> callback option \<Rightarrow> callback option \<Rightarrow> callback option \<Rightarrow> client \<Rightarrow> client" where
  "subscribe uuid graphqlParams onComplete' onError' onNext' s =
     (let (disposer, sd) = sender_subscribe uuid graphqlParams (sender s);
          sub = \<lparr>sub_key = subscriptions s, sub_id = uuid, sub_onNext = onNext',
                 sub_onError = onError', sub_onComplete = onComplete', sub_dispose = disposer\<rparr>;
          s1 = addEventListener ''next'' (NextHandler sub) False (s\<lparr>subscriptions := Suc (subscriptions s)\<rparr>);
          s2 = addEventListener ''error'' (ErrorHandler sub) False s1;
          s3 = addEventListener ''complete'' (CompletedHandler sub) True s2;
          s4 = s3\<lparr>socket_close := socket_close s3 @ [sub]\<rparr>
      in emit (SenderCalled (Subscribe uuid graphqlParams)) (s4\<lparr>sender := sd\<rparr>))"

section \<open>The environment\<close>

text \<open>
  What can happen to a client: a call of one of its public methods, an assignment to one
  of its eight handler fields, or an event of its socket.  A caller holds no reference to
  the closures of a subscription, so the listeners it adds and removes are its own.
\<close>

datatype slot =
    Onconnectioninit | Onconnectionack | Onping | Onpong
  | Onsubscribe | Onnext | Onerror | Oncomplete

datatype action =
    CallConnectionInit "json option"
  | CallConnectionAck "json option"
  | CallPing "json option"
  | CallPong "json option"
  | CallSubscribe ident json "callback option" "callback option" "callback option"
  | CallNext ident json
  | CallError ident "json list"
  | CallComplete ident
  | CallAddEventListener string nat bool
  | CallRemoveEventListener string nat
  | CallDispatchEvent event
  | Assign slot "callback option"
  | SocketOpen
  | SocketMessage string
  | SocketClose

fun assign :: "slot \<Rightarrow> callback option \<Rightarrow> client \<Rightarrow> client" where
  "assign Onconnectioninit f s = s\<lparr>onconnectioninit := f\<rparr>"
| "assign Onconnectionack f s = s\<lparr>onconnectionack := f\<rparr>"
| "assign Onping f s = s\<lparr>onping := f\<rparr>"
| "assign Onpong f s = s\<lparr>onpong := f\<rparr>"
| "assign Onsubscribe f s = s\<lparr>onsubscribe := f\<rparr>"
| "assign Onnext f s = s\<lparr>onnext := f\<rparr>"
| "assign Onerror f s = s\<lparr>onerror := f\<rparr>"
| "assign Oncomplete f s = s\<lparr>oncomplete := f\<rparr>"

text \<open>
  The socket's \<^verbatim>\<open>message\<close> event reaches \<^verbatim>\<open>#messageHandler\<close> if it has been added to the
  socket; the socket drops the promise the handler returns.  The \<^verbatim>\<open>close\<close> event runs the
  close handlers, each of them once.
\<close>

definition socket_on_message :: "(string \<Rightarrow> string + message) \<Rightarrow> string \<Rightarrow> client \<Rightarrow> client" where
  "socket_on_message parse raw s = (if socket_message s then snd (messageHandler parse raw s) else s)"

definition socket_on_close :: "client \<Rightarrow> client" where
  "socket_on_close s =
     fold closeHandler (socket_close s)
       (s\<lparr>socket_close := [], sender := transport_close (sender s)\<rparr>)"

definition socket_on_open :: "client \<Rightarrow> client" where
  "socket_on_open s = s\<lparr>sender := transport_open (sender s)\<rparr>"

fun step :: "(string \<Rightarrow> string + message) \<Rightarrow> action \<Rightarrow> client \<Rightarrow> client" where
  "step parse (CallConnectionInit p) s = connectionInit p s"
| "step parse (CallConnectionAck p) s = connectionAck p s"
| "step parse (CallPing p) s = ping p s"
| "step parse (CallPong p) s = pong p s"
| "step parse (CallSubscribe uuid params c e n) s = subscribe uuid params c e n s"
| "step parse (CallNext i p) s = next i p s"
| "step parse (CallError i p) s = error i p s"
| "step parse (CallComplete i) s = complete i s"
| "step parse (CallAddEventListener ty n once) s = addEventListener ty (External n) once s"
| "step parse (CallRemoveEventListener ty n) s = removeEventListener ty (External n) s"
| "step parse (CallDispatchEvent ev) s = dispatchEvent ev s"
| "step parse (Assign sl f) s = assign sl f s"
| "step parse SocketOpen s = socket_on_open s"
| "step parse (SocketMessage raw) s = socket_on_message parse raw s"
| "step parse SocketClose s = socket_on_close s"

definition run :: "(string \<Rightarrow> string + message) \<Rightarrow> action list \<Rightarrow> client \<Rightarrow> client" where
  "run parse as s = fold (step parse) as s"

section \<open>Auxiliary notions\<close>

text \<open>The frames that the client has handed to its sender, oldest first.\<close>

fun calls :: "effect list \<Rightarrow> message list" where
  "calls [] = []"
| "calls (SenderCalled frame # es) = frame # calls es"
| "calls (e # es) = calls es"

text \<open>The terminal frames of an identifier: its Error and its Complete.\<close>

fun terminal :: "ident \<Rightarrow> message \<Rightarrow> bool" where
  "terminal i (Error j p) = (j = i)"
| "terminal i (Complete j) = (j = i)"
| "terminal i m = False"

text \<open>
  \<open>keeps s s'\<close>: \<open>s'\<close> differs from \<open>s\<close> at most in the listener list, which has lost
  entries only, in the sender's queue and in the trace, and no frame has been handed to
  the sender in between.
\<close>

definition keeps :: "client \<Rightarrow> client \<Rightarrow> bool" where
  "keeps s s' \<longleftrightarrow>
     completedIds s' = completedIds s \<and> socket_message s' = socket_message s \<and>
     socket_close s' = socket_close s \<and> subscriptions s' = subscriptions s \<and>
     onconnectioninit s' = onconnectioninit s \<and> onconnectionack s' = onconnectionack s \<and>
     onping s' = onping s \<and> onpong s' = onpong s \<and> onsubscribe s' = onsubscribe s \<and>
     onnext s' = onnext s \<and> onerror s' = onerror s \<and> oncomplete s' = oncomplete s \<and>
     calls (trace s') = calls (trace s) \<and>
     (\<exists>P. eventTarget s' = filter P (eventTarget s))"

text \<open>The frames that an action hands to the sender.\<close>

fun handed :: "action \<Rightarrow> client \<Rightarrow> message list" where
  "handed (CallConnectionInit p) s = [ConnectionInit p]"
| "handed (CallConnectionAck p) s = [ConnectionAck p]"
| "handed (CallPing p) s = [Ping p]"
| "handed (CallPong p) s = [Pong p]"
| "handed (CallSubscribe uuid params c e n) s = [Subscribe uuid params]"
| "handed (CallNext i p) s = [Next i p]"
| "handed (CallError i p) s = (if i \<in> completedIds s then [] else [Error i p])"
| "handed (CallComplete i) s = (if i \<in> completedIds s then [] else [Complete i])"
| "handed a s = []"

text \<open>
  \<open>finalized s\<close>: the identifier of every terminal frame handed to the sender is in the
  completion-guard set, and no identifier has had two terminal frames.
\<close>

definition finalized :: "client \<Rightarrow> bool" where
  "finalized s \<longleftrightarrow>
     (\<forall>i. (\<exists>m \<in> set (calls (trace s)). terminal i m) \<longrightarrow> i \<in> completedIds s) \<and>
     (\<forall>i. length (filter (terminal i) (calls (trace s))) \<le> 1)"

text \<open>The subscription whose closure a listener is; none for a listener of the caller.\<close>

fun closure_of :: "listener \<Rightarrow> subscription option" where
  "closure_of (NextHandler sub) = Some sub"
| "closure_of (ErrorHandler sub) = Some sub"
| "closure_of (CompletedHandler sub) = Some sub"
| "closure_of (External n) = None"

text \<open>How \<^verbatim>\<open>subscribe\<close> registers its closures.\<close>

fun typed :: "string \<times> listener \<times> bool \<Rightarrow> bool" where
  "typed (ty, NextHandler sub, once) = (ty = ''next'' \<and> \<not> once)"
| "typed (ty, ErrorHandler sub, once) = (ty = ''error'' \<and> \<not> once)"
| "typed (ty, CompletedHandler sub, once) = (ty = ''complete'' \<and> once)"
| "typed (ty, External n, once) = True"

definition key :: "string \<times> listener \<times> bool \<Rightarrow> string \<times> listener" where
  "key r = (fst r, fst (snd r))"

text \<open>
  \<open>well_formed s\<close> holds of every state that a new client reaches: the closures of the
  subscriptions are registered the way \<^verbatim>\<open>subscribe\<close> registers them, no type has a callback
  twice, the close handler of a subscription with a registered closure is on the socket,
  and \<^verbatim>\<open>#messageHandler\<close> is on the socket as soon as there is a listener.
\<close>

definition well_formed :: "client \<Rightarrow> bool" where
  "well_formed s \<longleftrightarrow>
     list_all typed (eventTarget s) \<and>
     distinct (map key (eventTarget s)) \<and>
     (\<forall>r \<in> set (eventTarget s). \<forall>sub.
        closure_of (fst (snd r)) = Some sub \<longrightarrow> sub \<in> set (socket_close s)) \<and>
     (eventTarget s \<noteq> [] \<longrightarrow> socket_message s)"

text \<open>What a listener does with an event, as far as the trace shows it.\<close>

fun reaction :: "listener \<Rightarrow> event \<Rightarrow> effect list" where
  "reaction (NextHandler sub) ev =
     (if data_id (ev_data ev) = Some (sub_id sub)
      then case sub_onNext sub of None \<Rightarrow> [] | Some f \<Rightarrow> [OnNext sub f (data_payload (ev_data ev))]
      else [])"
| "reaction (ErrorHandler sub) ev =
     (if data_id (ev_data ev) = Some (sub_id sub)
      then case sub_onError sub of None \<Rightarrow> [] | Some f \<Rightarrow> [OnError sub f (data_payload (ev_data ev))]
      else [])"
| "reaction (CompletedHandler sub) ev =
     (case sub_dispose sub of None \<Rightarrow> [] | Some token \<Rightarrow> [Disposed sub token]) @
     (if data_id (ev_data ev) = Some (sub_id sub)
      then case sub_onComplete sub of None \<Rightarrow> [] | Some f \<Rightarrow> [OnComplete sub f]
      else [])"
| "reaction (External n) ev = []"

definition listeners_of :: "string \<Rightarrow> client \<Rightarrow> listener list" where
  "listeners_of ty s = map (\<lambda>r. fst (snd r)) (filter (\<lambda>r. fst r = ty) (eventTarget s))"

definition deliveries :: "event \<Rightarrow> listener list \<Rightarrow> effect list" where
  "deliveries ev ls = concat (map (\<lambda>l. Invoked l ev # reaction l ev) ls)"

text \<open>The type of the event that the dispatcher makes for a decoded message.\<close>

fun event_name :: "message \<Rightarrow> string" where
  "event_name (ConnectionInit p) = ''connectioninit''"
| "event_name (ConnectionAck p) = ''connectionack''"
| "event_name (Ping p) = ''ping''"
| "event_name (Pong p) = ''pong''"
| "event_name (Subscribe i p) = ''subscribe''"
| "event_name (Next i p) = ''next''"
| "event_name (Error i p) = ''error''"
| "event_name (Complete i) = ''complete''"

text \<open>The handler field that the dispatcher reads for a decoded message: name and value.\<close>

fun slot_name :: "message \<Rightarrow> string" where
  "slot_name (ConnectionInit p) = ''onconnectioninit''"
| "slot_name (ConnectionAck p) = ''onconnectionack''"
| "slot_name (Ping p) = ''onping''"
| "slot_name (Pong p) = ''onpong''"
| "slot_name (Subscribe i p) = ''onsubscribe''"
| "slot_name (Next i p) = ''onnext''"
| "slot_name (Error i p) = ''onerror''"
| "slot_name (Complete i) = ''oncomplete''"

fun slot_of :: "message \<Rightarrow> client \<Rightarrow> callback option" where
  "slot_of (ConnectionInit p) s = onconnectioninit s"
| "slot_of (ConnectionAck p) s = onconnectionack s"
| "slot_of (Ping p) s = onping s"
| "slot_of (Pong p) s = onpong s"
| "slot_of (Subscribe i p) s = onsubscribe s"
| "slot_of (Next i p) s = onnext s"
| "slot_of (Error i p) s = onerror s"
| "slot_of (Complete i) s = oncomplete s"

text \<open>The messages that the completion guard keeps from being dispatched.\<close>

fun guarded :: "message \<Rightarrow> client \<Rightarrow> bool" where
  "guarded (Next i p) s = (i \<in> completedIds s)"
| "guarded (Error i p) s = (i \<in> completedIds s)"
| "guarded (Complete i) s = (i \<in> completedIds s)"
| "guarded m s = False"

text \<open>
  The order that the specification gives: the single-slot handler first, the listeners of
  the bus second, so that no single-slot handler is invoked after a listener.
\<close>

fun is_slot :: "effect \<Rightarrow> bool" where
  "is_slot (SlotInvoked name f ev) = True"
| "is_slot e = False"

fun slot_first :: "effect list \<Rightarrow> bool" where
  "slot_first [] = True"
| "slot_first (Invoked l ev # es) = (\<not> list_ex is_slot es \<and> slot_first es)"
| "slot_first (e # es) = slot_first es"

text \<open>
  \<open>listening sub s\<close>: the three closures of the subscription are registered on the bus.
  This is a state of the code, not the Active state of the specification, which lasts from
  \<^verbatim>\<open>subscribe\<close> to a Complete for the identifier of the subscription or to the close of the
  transport: a subscription stops listening at a \<^verbatim>\<open>complete\<close> event of any identifier.
\<close>

definition listening :: "subscription \<Rightarrow> client \<Rightarrow> bool" where
  "listening sub s \<longleftrightarrow>
     registered ''next'' (NextHandler sub) (eventTarget s) \<and>
     registered ''error'' (ErrorHandler sub) (eventTarget s) \<and>
     registered ''complete'' (CompletedHandler sub) (eventTarget s)"

text \<open>The effects that belong to one subscription: its callbacks and its disposer.\<close>

fun concerns :: "subscription \<Rightarrow> effect \<Rightarrow> bool" where
  "concerns sub (OnNext sub' f v) = (sub' = sub)"
| "concerns sub (OnError sub' f v) = (sub' = sub)"
| "concerns sub (OnComplete sub' f) = (sub' = sub)"
| "concerns sub (Disposed sub' token) = (sub' = sub)"
| "concerns sub e = False"

text \<open>The actions that add \<^verbatim>\<open>#messageHandler\<close> to the socket, and the messages of the socket.\<close>

fun attaches :: "action \<Rightarrow> bool" where
  "attaches (CallAddEventListener ty n once) = True"
| "attaches (CallSubscribe uuid params c e n) = True"
| "attaches a = False"

fun is_message :: "action \<Rightarrow> bool" where
  "is_message (SocketMessage raw) = True"
| "is_message a = False"

text \<open>
  The actions that, in the state \<open>s\<close>, dispatch an event of the type \<^verbatim>\<open>complete\<close> on the bus,
  and the socket's \<^verbatim>\<open>close\<close> event.  A message of the socket does so if \<^verbatim>\<open>#messageHandler\<close>
  is on the socket, the message decodes to a Complete, and the completion guard does not
  hold its identifier; a call of the public \<^verbatim>\<open>dispatchEvent\<close> does so if the event is of
  this type.
\<close>

fun detaching :: "(string \<Rightarrow> string + message) \<Rightarrow> client \<Rightarrow> action \<Rightarrow> bool" where
  "detaching parse s SocketClose = True"
| "detaching parse s (SocketMessage raw) =
     (socket_message s \<and>
      (case parse raw of Inr (Complete i) \<Rightarrow> i \<notin> completedIds s | _ \<Rightarrow> False))"
| "detaching parse s (CallDispatchEvent ev) = (ev_type ev = ''complete'')"
| "detaching parse s a = False"

text \<open>
  What a user of the sender does while the transport is connecting: it sends a frame, or
  it invokes the disposer that an earlier send has returned.
\<close>

datatype sender_op = Send message | Dispose nat

fun apply_op :: "sender_op \<Rightarrow> sender_state \<Rightarrow> sender_state" where
  "apply_op (Send frame) sd = snd (send frame sd)"
| "apply_op (Dispose token) sd = dispose token sd"

text \<open>The frames of the send calls, in the order of the calls.\<close>

fun requested :: "sender_op list \<Rightarrow> message list" where
  "requested [] = []"
| "requested (Send frame # ops) = frame # requested ops"
| "requested (Dispose token # ops) = requested ops"

text \<open>
  What the specification says is transmitted when the transport becomes ready: the frames
  of the send calls, in the order of the calls, without those whose disposer has been
  invoked in the meantime.  \<open>n\<close> is the token of the next send call.
\<close>

fun expect :: "nat \<Rightarrow> sender_op list \<Rightarrow> message list" where
  "expect n [] = []"
| "expect n (Send frame # ops) =
     (if Dispose n \<in> set ops then [] else [frame]) @ expect (Suc n) ops"
| "expect n (Dispose token # ops) = expect n ops"

text \<open>The methods of the client that send a frame.\<close>

fun sending :: "action \<Rightarrow> bool" where
  "sending (CallConnectionInit p) = True"
| "sending (CallConnectionAck p) = True"
| "sending (CallPing p) = True"
| "sending (CallPong p) = True"
| "sending (CallSubscribe uuid params c e n) = True"
| "sending (CallNext i p) = True"
| "sending (CallError i p) = True"
| "sending (CallComplete i) = True"
| "sending a = False"

fun handed_run :: "(string \<Rightarrow> string + message) \<Rightarrow> action list \<Rightarrow> client \<Rightarrow> message list" where
  "handed_run parse [] s = []"
| "handed_run parse (a # as) s = handed a s @ handed_run parse as (step parse a s)"

text \<open>Four decoders for the examples.\<close>

definition decodes_ping :: "string \<Rightarrow> string + message" where
  "decodes_ping raw = Inr (Ping None)"

definition decodes_nothing :: "string \<Rightarrow> string + message" where
  "decodes_nothing raw = Inl ''Unexpected token''"

definition decodes_late_error :: "string \<Rightarrow> string + message" where
  "decodes_late_error raw =
     (if raw = ''c'' then Inr (Complete ''b'') else Inr (Error ''a'' [raw]))"

definition decodes_foreign :: "string \<Rightarrow> string + message" where
  "decodes_foreign raw = (if raw = ''c'' then Inr (Complete ''b'') else Inr (Next ''a'' raw))"

section \<open>What dispatching leaves alone\<close>

lemma calls_append [simp]: "calls (es @ fs) = calls es @ calls fs"
  by (induction es rule: calls.induct) simp_all

lemma filter_self: "\<exists>P. xs = filter P xs"
  by (rule exI [of _ "\<lambda>x. True"]) simp

lemma filter_twice: "\<exists>P. filter R (filter Q xs) = filter P xs"
  by (rule exI [of _ "\<lambda>x. Q x \<and> R x"]) simp

lemma keeps_refl [simp]: "keeps s s"
  by (simp add: keeps_def filter_self)

lemma keeps_trans:
  assumes "keeps s t" and "keeps t u"
  shows "keeps s u"
proof -
  from assms obtain Q R where "eventTarget t = filter Q (eventTarget s)"
    and "eventTarget u = filter R (eventTarget t)"
    unfolding keeps_def by blast
  then have "eventTarget u = filter R (filter Q (eventTarget s))"
    by simp
  with filter_twice [of R Q "eventTarget s"]
  have "\<exists>P. eventTarget u = filter P (eventTarget s)"
    by (simp del: filter_filter)
  with assms show ?thesis by (simp add: keeps_def)
qed

lemma keeps_emit [simp]: "calls [e] = [] \<Longrightarrow> keeps s (emit e s)"
  by (simp add: keeps_def emit_def filter_self)

lemma keeps_removeEventListener [simp]: "keeps s (removeEventListener ty l s)"
  by (auto simp: keeps_def removeEventListener_def remove_listener_def)

lemma keeps_call_back [simp]: "(\<And>f. calls [e f] = []) \<Longrightarrow> keeps s (snd (call_back cb e s))"
  by (simp add: call_back_def split: option.splits)

lemma keeps_dispose [simp]: "keeps s (disposeSubscribeMessageSending sub s)"
  by (simp add: disposeSubscribeMessageSending_def keeps_def emit_def filter_self
      split: option.splits)

lemma keeps_completedHandler [simp]: "keeps s (snd (completedHandler sub ev s))"
proof -
  let ?s1 = "disposeSubscribeMessageSending sub s"
  let ?s2 = "snd (completeHandler sub ev ?s1)"
  have a: "keeps s ?s1" by simp
  have b: "keeps ?s1 ?s2" by (simp add: completeHandler_def)
  have c: "keeps ?s2 (removeEventListener ''error'' (ErrorHandler sub)
                       (removeEventListener ''next'' (NextHandler sub) ?s2))"
    by (rule keeps_trans [OF keeps_removeEventListener keeps_removeEventListener])
  from a b have ab: "keeps s ?s2" by (rule keeps_trans)
  from ab c have abc: "keeps s (removeEventListener ''error'' (ErrorHandler sub)
                       (removeEventListener ''next'' (NextHandler sub) ?s2))"
    by (rule keeps_trans)
  from ab abc show ?thesis
    by (simp add: completedHandler_def Let_def case_prod_beta)
qed

lemma keeps_invoke [simp]: "keeps s (invoke l ev s)"
  by (cases l) (simp_all add: nextHandler_def errorHandler_def)

lemma keeps_inner_invoke [simp]: "keeps s (inner_invoke ev r s)"
proof (cases r)
  case (fields ty l once)
  have "keeps s (if once then removeEventListener ty l s else s)" by simp
  then have "keeps s (emit (Invoked l ev) (if once then removeEventListener ty l s else s))"
    by (rule keeps_trans) simp
  then have "keeps s (invoke l ev (emit (Invoked l ev) (if once then removeEventListener ty l s else s)))"
    by (rule keeps_trans) simp
  with fields show ?thesis by (simp add: inner_invoke_def)
qed

lemma keeps_fold_inner_invoke: "keeps s (fold (inner_invoke ev) rs s)"
proof (induction rs arbitrary: s)
  case Nil
  show ?case by simp
next
  case (Cons r rs)
  have "keeps s (fold (inner_invoke ev) rs (inner_invoke ev r s))"
    by (rule keeps_trans [OF keeps_inner_invoke Cons.IH])
  then show ?case by simp
qed

lemma keeps_dispatchEvent [simp]: "keeps s (dispatchEvent ev s)"
  unfolding dispatchEvent_def
  by (rule keeps_trans [OF keeps_emit keeps_fold_inner_invoke]) simp


lemma keeps_completedIds: "keeps s s' \<Longrightarrow> completedIds s' = completedIds s"
  by (simp add: keeps_def)

lemma keeps_socket_message: "keeps s s' \<Longrightarrow> socket_message s' = socket_message s"
  by (simp add: keeps_def)

lemma keeps_slot_call [simp]: "keeps s (snd (slot_call name slot ev s))"
  by (simp add: slot_call_def)

lemma keeps_dispatch_slot: "keeps s (snd (slot_call name slot ev' (dispatchEvent ev s)))"
  by (rule keeps_trans [OF keeps_dispatchEvent keeps_slot_call])

lemma keeps_block: "completedIds s \<subseteq> completedIds (block ev s) \<and> socket_message (block ev s) = socket_message s"
  by (simp add: block_def subset_insertI split: option.splits)

lemma messageHandler_mono:
  "completedIds s \<subseteq> completedIds (snd (messageHandler parse raw s))"
proof (cases "parse raw")
  case (Inl d)
  then show ?thesis
    by (simp add: messageHandler_def onUnknown_def keeps_completedIds [OF keeps_dispatchEvent])
next
  case (Inr m)
  have c: "completedIds s \<subseteq> completedIds (snd (onComplete ev s))" for ev
    using keeps_block [of s ev]
    by (simp add: onComplete_def Let_def keeps_completedIds [OF keeps_dispatch_slot])
  from Inr show ?thesis
    by (cases m)
      (simp_all add: messageHandler_def onConnectionInit_def onConnectionAck_def onPing_def
        onPong_def onSubscribe_def onNext_def onError_def Let_def c
        keeps_completedIds [OF keeps_dispatch_slot])
qed

lemma sender_call_completedIds [simp]: "completedIds (sender_call f s) = completedIds s"
  by (simp add: sender_call_def emit_def)

lemma fold_closeHandler_keeps: "keeps s (fold closeHandler subs s)"
proof (induction subs arbitrary: s)
  case Nil
  show ?case by simp
next
  case (Cons sub subs)
  have "keeps s (closeHandler sub s)"
    unfolding closeHandler_def
    by (rule keeps_trans [OF keeps_trans [OF keeps_removeEventListener keeps_removeEventListener]
          keeps_removeEventListener])
  from keeps_trans [OF this Cons.IH] show ?case by simp
qed

lemma socket_on_close_completedIds [simp]: "completedIds (socket_on_close s) = completedIds s"
  by (simp add: socket_on_close_def keeps_completedIds [OF fold_closeHandler_keeps])

lemma subscribe_completedIds [simp]:
  "completedIds (subscribe uuid params c e n s) = completedIds s"
  by (simp add: subscribe_def Let_def case_prod_beta addEventListener_def emit_def)

lemma step_mono: "completedIds s \<subseteq> completedIds (step parse a s)"
proof (cases a)
  case (SocketMessage raw)
  then show ?thesis by (simp add: socket_on_message_def messageHandler_mono)
next
  case (Assign sl f)
  then show ?thesis by (cases sl) simp_all
qed (auto simp: connectionInit_def connectionAck_def ping_def pong_def next_def error_def
      complete_def addEventListener_def removeEventListener_def socket_on_open_def
      keeps_completedIds [OF keeps_dispatchEvent])

lemma run_mono: "completedIds s \<subseteq> completedIds (run parse as s)"
proof (induction as arbitrary: s)
  case Nil
  show ?case by (simp add: run_def)
next
  case (Cons a as)
  have "completedIds s \<subseteq> completedIds (step parse a s)" by (rule step_mono)
  also have "\<dots> \<subseteq> completedIds (run parse as (step parse a s))" by (rule Cons.IH)
  finally show ?case by (simp add: run_def)
qed

lemma guard_suppresses:
  assumes "i \<in> completedIds s" and "parse raw = Inr m"
    and "m = Next i p \<or> m = Error i e \<or> m = Complete i"
  shows "messageHandler parse raw s = (True, s)"
  using assms by (auto simp: messageHandler_def onNext_def onError_def onComplete_def blocked_def)


section \<open>The completion guard on the inbound path\<close>

text \<open>
  C1.  Once an identifier is in the completion-guard set, put there by a local
  \<^verbatim>\<open>error(id, ...)\<close> or \<^verbatim>\<open>complete(id)\<close> or by a remote Complete that the handler of the
  socket's messages has dispatched, an inbound Next, Error or Complete for this identifier
  leaves the whole state of the client as it is, whatever happened in between: nothing is
  added to the trace, so no event is emitted, no listener and no single-slot handler is
  invoked, and a second remote Complete is not dispatched again.
\<close>

theorem guard_blocks_inbound:
  assumes "a = CallError i e0 \<or> a = CallComplete i \<or>
           (\<exists>raw0. a = SocketMessage raw0 \<and> parse raw0 = Inr (Complete i) \<and> socket_message s0)"
    and "parse raw = Inr (Next i p) \<or> parse raw = Inr (Error i e) \<or> parse raw = Inr (Complete i)"
  shows "step parse (SocketMessage raw) (run parse as (step parse a s0)) = run parse as (step parse a s0)"
proof -
  have "i \<in> completedIds (step parse a s0)"
    using assms(1)
    by (auto simp: error_def complete_def socket_on_message_def messageHandler_def
        onComplete_def blocked_def block_def Let_def
        keeps_completedIds [OF keeps_dispatch_slot])
  with run_mono have "i \<in> completedIds (run parse as (step parse a s0))"
    by blast
  with assms(2) show ?thesis
    by (auto simp: socket_on_message_def guard_suppresses)
qed


theorem guard_blocks_inbound_witness:
  "(let parse = (\<lambda>raw. if raw = ''n'' then Inr (Next ''a'' ''{}'') else Inl ''bad'');
        s = run parse [CallAddEventListener ''next'' 0 False]
              (step parse (CallComplete ''a'') (new_client OPEN))
    in parse ''n'' = Inr (Next ''a'' ''{}'') \<and> socket_message s \<and>
       step parse (SocketMessage ''n'') s = s)"
  using guard_blocks_inbound [of "CallComplete ''a''" "''a''" "[]"
      "\<lambda>raw. if raw = ''n'' then Inr (Next ''a'' ''{}'') else Inl ''bad''"
      "new_client OPEN" "''n''" "''{}''" "[]" "[CallAddEventListener ''next'' 0 False]"]
  by (simp add: Let_def run_def addEventListener_def complete_def sender_call_def emit_def)

section \<open>The completion guard on the outbound path\<close>

lemma keeps_calls: "keeps s s' \<Longrightarrow> calls (trace s') = calls (trace s)"
  by (simp add: keeps_def)

lemma sender_call_calls [simp]: "calls (trace (sender_call f s)) = calls (trace s) @ [f]"
  by (simp add: sender_call_def emit_def)

lemma messageHandler_keeps_calls:
  "calls (trace (snd (messageHandler parse raw s))) = calls (trace s)"
proof (cases "parse raw")
  case (Inl d)
  then show ?thesis
    by (simp add: messageHandler_def onUnknown_def keeps_calls [OF keeps_dispatchEvent])
next
  case (Inr m)
  have b: "calls (trace (block ev s)) = calls (trace s)" for ev
    by (simp add: block_def split: option.splits)
  have c: "calls (trace (snd (onComplete ev s))) = calls (trace s)" for ev
    by (simp add: onComplete_def Let_def keeps_calls [OF keeps_dispatch_slot] b)
  from Inr show ?thesis
    by (cases m)
      (simp_all add: messageHandler_def onConnectionInit_def onConnectionAck_def onPing_def
        onPong_def onSubscribe_def onNext_def onError_def Let_def c
        keeps_calls [OF keeps_dispatch_slot])
qed

lemma step_calls: "calls (trace (step parse a s)) = calls (trace s) @ handed a s"
proof (cases a)
  case (SocketMessage raw)
  then show ?thesis by (simp add: socket_on_message_def messageHandler_keeps_calls)
next
  case (Assign sl f)
  then show ?thesis by (cases sl) simp_all
next
  case SocketClose
  then show ?thesis
    by (simp add: socket_on_close_def keeps_calls [OF fold_closeHandler_keeps])
next
  case (CallSubscribe uuid params c e n)
  then show ?thesis
    by (simp add: subscribe_def Let_def case_prod_beta addEventListener_def emit_def)
qed (simp_all add: connectionInit_def connectionAck_def ping_def pong_def next_def error_def
      complete_def addEventListener_def removeEventListener_def socket_on_open_def
      keeps_calls [OF keeps_dispatchEvent])

lemma terminal_handed:
  "m \<in> set (handed a s) \<Longrightarrow> terminal i m \<Longrightarrow>
     i \<notin> completedIds s \<and> i \<in> completedIds (step parse a s) \<and> handed a s = [m]"
  by (cases a) (auto simp: error_def complete_def split: if_splits)

lemma finalized_step:
  assumes "finalized s"
  shows "finalized (step parse a s)"
proof -
  have mono: "completedIds s \<subseteq> completedIds (step parse a s)" by (rule step_mono)
  have old: "length (filter (terminal i) (calls (trace s))) \<le> 1" for i
    using assms by (simp add: finalized_def)
  have in_set: "i \<in> completedIds s" if "m \<in> set (calls (trace s))" "terminal i m" for i m
    using assms that unfolding finalized_def by blast
  have a: "i \<in> completedIds (step parse a s)"
    if "m \<in> set (calls (trace (step parse a s)))" "terminal i m" for i m
    using that mono in_set terminal_handed [of m a s i parse]
    by (auto simp: step_calls)
  have b: "length (filter (terminal i) (calls (trace (step parse a s)))) \<le> 1" for i
  proof (cases "\<exists>m \<in> set (handed a s). terminal i m")
    case True
    then obtain m where m: "m \<in> set (handed a s)" "terminal i m" by blast
    from terminal_handed [OF this] have fresh: "i \<notin> completedIds s" and one: "handed a s = [m]"
      by simp_all
    from fresh in_set have "filter (terminal i) (calls (trace s)) = []"
      by (auto simp: filter_empty_conv)
    with one m show ?thesis by (simp add: step_calls)
  next
    case False
    then have "filter (terminal i) (handed a s) = []"
      by (auto simp: filter_empty_conv)
    with old show ?thesis by (simp add: step_calls)
  qed
  from a b show ?thesis unfolding finalized_def by blast
qed

lemma finalized_run: "finalized s \<Longrightarrow> finalized (run parse as s)"
  unfolding run_def by (induction as arbitrary: s) (simp_all add: finalized_step)

lemma finalized_new: "finalized (new_client rs)"
  by (simp add: finalized_def new_client_def)

text \<open>
  C2.  After a call of \<^verbatim>\<open>error(id, ...)\<close> or \<^verbatim>\<open>complete(id)\<close>, and whatever happens next,
  another call of \<^verbatim>\<open>error(id, ...)\<close> or \<^verbatim>\<open>complete(id)\<close> leaves the whole state of the client
  as it is: the sender is not called and no frame is queued or transmitted.  In every run
  of a new client, the sender is handed at most one terminal frame for each identifier.
\<close>

theorem terminal_frame_once:
  assumes "a = CallError i e0 \<or> a = CallComplete i"
    and "b = CallError i e \<or> b = CallComplete i"
  shows "step parse b (run parse as (step parse a s0)) = run parse as (step parse a s0) \<and>
         length (filter (terminal i) (calls (trace (run parse bs (new_client rs))))) \<le> 1"
proof -
  have "i \<in> completedIds (step parse a s0)"
    using assms(1) by (auto simp: error_def complete_def)
  with run_mono have "i \<in> completedIds (run parse as (step parse a s0))"
    by blast
  with assms(2)
  have "step parse b (run parse as (step parse a s0)) = run parse as (step parse a s0)"
    by (auto simp: error_def complete_def)
  moreover have "length (filter (terminal i) (calls (trace (run parse bs (new_client rs))))) \<le> 1"
    using finalized_run [OF finalized_new, of parse bs rs] by (simp add: finalized_def)
  ultimately show ?thesis by simp
qed

theorem terminal_frame_once_witness:
  "(let parse = (\<lambda>raw. Inl ''bad'');
        s = run parse [CallPing None] (step parse (CallComplete ''y'') (new_client OPEN))
    in step parse (CallComplete ''y'') s = s \<and>
       transmitted (sender s) = [Complete ''y'', Ping None] \<and>
       length (filter (terminal ''y'')
         (calls (trace (run parse [CallComplete ''y'', CallComplete ''y''] (new_client OPEN))))) \<le> 1)"
  using terminal_frame_once [of "CallComplete ''y''" "''y''" "[]" "CallComplete ''y''" "[]"
      "\<lambda>raw. Inl ''bad''" "[CallPing None]" "new_client OPEN"
      "[CallComplete ''y'', CallComplete ''y'']" OPEN]
  by (simp add: Let_def run_def complete_def ping_def sender_call_def emit_def send_def
      new_client_def)

section \<open>The trace of a dispatch\<close>

lemma call_back_trace:
  "trace (snd (call_back cb e s)) = trace s @ (case cb of None \<Rightarrow> [] | Some f \<Rightarrow> [e f])"
  by (simp add: call_back_def emit_def split: option.splits)

lemma invoke_trace: "trace (invoke l ev s) = trace s @ reaction l ev"
proof (cases l)
  case (CompletedHandler sub)
  have "trace (snd (completedHandler sub ev s)) = trace s @ reaction (CompletedHandler sub) ev"
    by (simp add: completedHandler_def completeHandler_def disposeSubscribeMessageSending_def
        Let_def case_prod_beta call_back_trace removeEventListener_def emit_def
        split: option.splits)
  with CompletedHandler show ?thesis by simp
qed (simp_all add: nextHandler_def errorHandler_def call_back_trace)

lemma inner_invoke_trace:
  assumes "r \<in> set (eventTarget s)"
  shows "trace (inner_invoke ev r s) = trace s @ Invoked (fst (snd r)) ev # reaction (fst (snd r)) ev"
proof (cases r)
  case (fields ty l once)
  with assms show ?thesis
    by (simp add: inner_invoke_def invoke_trace emit_def removeEventListener_def)
qed

lemma invoke_eventTarget:
  "eventTarget (invoke l ev s) = eventTarget s \<or>
   (\<exists>sub. l = CompletedHandler sub \<and>
      eventTarget (invoke l ev s) =
        remove_listener ''error'' (ErrorHandler sub)
          (remove_listener ''next'' (NextHandler sub) (eventTarget s)))"
proof (cases l)
  case (CompletedHandler sub)
  then show ?thesis
    by (simp add: completedHandler_def completeHandler_def disposeSubscribeMessageSending_def
        Let_def case_prod_beta call_back_def removeEventListener_def emit_def
        split: option.splits)
qed (simp_all add: nextHandler_def errorHandler_def call_back_def emit_def split: option.splits)

lemma inner_invoke_preserves:
  assumes "typed r" and "r' \<in> set (eventTarget s)" and "fst r' = fst r" and "key r' \<noteq> key r"
  shows "r' \<in> set (eventTarget (inner_invoke ev r s))"
proof (cases "r \<in> set (eventTarget s)")
  case False
  with assms(2) show ?thesis by (cases r) (simp add: inner_invoke_def)
next
  case True
  obtain ty l once where r: "r = (ty, l, once)" by (cases r)
  obtain ty' l' once' where r': "r' = (ty', l', once')" by (cases r')
  let ?s1 = "emit (Invoked l ev) (if once then removeEventListener ty l s else s)"
  from assms r r' have in1: "r' \<in> set (eventTarget ?s1)"
    by (auto simp: emit_def removeEventListener_def remove_listener_def key_def)
  from invoke_eventTarget [of l ev ?s1] have "r' \<in> set (eventTarget (invoke l ev ?s1))"
  proof
    assume "eventTarget (invoke l ev ?s1) = eventTarget ?s1"
    with in1 show ?thesis by simp
  next
    assume "\<exists>sub. l = CompletedHandler sub \<and>
      eventTarget (invoke l ev ?s1) =
        remove_listener ''error'' (ErrorHandler sub)
          (remove_listener ''next'' (NextHandler sub) (eventTarget ?s1))"
    then obtain sub where l: "l = CompletedHandler sub"
      and eq: "eventTarget (invoke l ev ?s1) =
        remove_listener ''error'' (ErrorHandler sub)
          (remove_listener ''next'' (NextHandler sub) (eventTarget ?s1))"
      by blast
    from assms(1,3) r r' l have "ty' = ''complete''" by simp
    with in1 r' show ?thesis unfolding eq by (simp add: remove_listener_def)
  qed
  with True r show ?thesis by (simp add: inner_invoke_def)
qed

lemma fold_inner_invoke_trace:
  assumes "list_all typed rs" and "distinct (map key rs)" and "\<forall>r \<in> set rs. fst r = ty"
    and "set rs \<subseteq> set (eventTarget s)"
  shows "trace (fold (inner_invoke ev) rs s) =
           trace s @ deliveries ev (map (\<lambda>r. fst (snd r)) rs)"
  using assms
proof (induction rs arbitrary: s)
  case Nil
  show ?case by (simp add: deliveries_def)
next
  case (Cons r rs)
  from Cons.prems have r: "r \<in> set (eventTarget s)" and t: "typed r" by simp_all
  have "set rs \<subseteq> set (eventTarget (inner_invoke ev r s))"
  proof
    fix r' assume r': "r' \<in> set rs"
    from r' Cons.prems(2) have "key r' \<noteq> key r"
      by (auto simp: image_iff)
    with r' Cons.prems have "r' \<in> set (eventTarget s)" "fst r' = fst r" "key r' \<noteq> key r"
      by auto
    with t show "r' \<in> set (eventTarget (inner_invoke ev r s))"
      by (rule inner_invoke_preserves)
  qed
  with Cons.prems
  have "trace (fold (inner_invoke ev) rs (inner_invoke ev r s)) =
          trace (inner_invoke ev r s) @ deliveries ev (map (\<lambda>r. fst (snd r)) rs)"
    by (intro Cons.IH) simp_all
  with r show ?case by (simp add: inner_invoke_trace deliveries_def)
qed

lemma dispatchEvent_trace:
  assumes "well_formed s"
  shows "trace (dispatchEvent ev s) =
           trace s @ Emitted ev # deliveries ev (listeners_of (ev_type ev) s)"
proof -
  let ?rs = "filter (\<lambda>(ty, l, once). ty = ev_type ev) (eventTarget s)"
  have same: "?rs = filter (\<lambda>r. fst r = ev_type ev) (eventTarget s)"
    by (rule filter_cong) auto
  from assms have "list_all typed ?rs" and "distinct (map key ?rs)"
    by (simp_all add: well_formed_def list_all_iff distinct_map_filter)
  moreover have "\<forall>r \<in> set ?rs. fst r = ev_type ev" by auto
  moreover have "set ?rs \<subseteq> set (eventTarget (emit (Emitted ev) s))"
    by (auto simp: emit_def)
  ultimately
  have "trace (fold (inner_invoke ev) ?rs (emit (Emitted ev) s)) =
          trace (emit (Emitted ev) s) @ deliveries ev (map (\<lambda>r. fst (snd r)) ?rs)"
    by (rule fold_inner_invoke_trace)
  then show ?thesis
    by (simp add: dispatchEvent_def listeners_of_def emit_def same)
qed

section \<open>The states a client reaches\<close>

lemma registered_iff: "registered ty l regs \<longleftrightarrow> (ty, l) \<in> key ` set regs"
  by (force simp: registered_def list_ex_iff key_def image_iff)

lemma well_formed_cong:
  assumes "eventTarget s' = eventTarget s" and "socket_close s' = socket_close s"
    and "socket_message s' = socket_message s"
  shows "well_formed s' = well_formed s"
  using assms by (simp add: well_formed_def)

lemma keeps_well_formed:
  assumes "keeps s s'" and "well_formed s"
  shows "well_formed s'"
proof -
  from assms(1) obtain P where P: "eventTarget s' = filter P (eventTarget s)"
    and c: "socket_close s' = socket_close s" and m: "socket_message s' = socket_message s"
    unfolding keeps_def by blast
  from assms(2) have "eventTarget s' \<noteq> [] \<longrightarrow> socket_message s'"
    unfolding P m well_formed_def by (cases "eventTarget s") auto
  with assms(2) show ?thesis
    unfolding well_formed_def P c by (force simp: list_all_iff distinct_map_filter)
qed

lemma well_formed_new: "well_formed (new_client rs)"
  by (simp add: well_formed_def new_client_def)

lemma well_formed_add_external:
  assumes "well_formed s"
  shows "well_formed (addEventListener ty (External n) once s)"
  using assms
  by (auto simp: well_formed_def addEventListener_def add_listener_def registered_iff key_def)

lemma well_formed_subscribe:
  assumes "well_formed s"
  shows "well_formed (subscribe uuid params c e n s)"
  using assms
  by (auto simp: well_formed_def subscribe_def Let_def case_prod_beta addEventListener_def
      add_listener_def registered_iff key_def emit_def list_all_iff split: option.splits)

lemma typed_key:
  assumes "typed r" and "closure_of (fst (snd r)) = Some sub"
  shows "key r \<in> {(''next'', NextHandler sub), (''error'', ErrorHandler sub),
                  (''complete'', CompletedHandler sub)}"
proof -
  obtain ty l once where r: "r = (ty, l, once)" by (cases r)
  with assms show ?thesis by (cases l) (simp_all add: key_def)
qed

lemma closeHandler_eventTarget:
  "eventTarget (closeHandler sub s) =
     filter (\<lambda>r. key r \<notin> {(''next'', NextHandler sub), (''error'', ErrorHandler sub),
                            (''complete'', CompletedHandler sub)}) (eventTarget s)"
  by (auto simp: closeHandler_def removeEventListener_def remove_listener_def key_def
      intro!: filter_cong)

lemma fold_closeHandler_eventTarget:
  "eventTarget (fold closeHandler subs s) =
     filter (\<lambda>r. \<forall>sub \<in> set subs.
                key r \<notin> {(''next'', NextHandler sub), (''error'', ErrorHandler sub),
                           (''complete'', CompletedHandler sub)}) (eventTarget s)"
proof (induction subs arbitrary: s)
  case Nil
  show ?case by simp
next
  case (Cons sub subs)
  show ?case
    unfolding fold_simps Cons.IH closeHandler_eventTarget filter_filter
    by (rule filter_cong) auto
qed

lemma socket_on_close_externals:
  assumes "well_formed s"
  shows "list_all (\<lambda>r. closure_of (fst (snd r)) = None) (eventTarget (socket_on_close s))"
proof -
  have "closure_of (fst (snd r)) = None"
    if r: "r \<in> set (eventTarget s)"
      and out: "\<forall>sub \<in> set (socket_close s).
                key r \<notin> {(''next'', NextHandler sub), (''error'', ErrorHandler sub),
                           (''complete'', CompletedHandler sub)}" for r
  proof (cases "closure_of (fst (snd r))")
    case None
    then show ?thesis .
  next
    case (Some sub)
    from assms r have "typed r" by (simp add: well_formed_def list_all_iff)
    from typed_key [OF this Some] out assms r Some show ?thesis
      by (force simp: well_formed_def list_all_iff)
  qed
  then show ?thesis
    by (simp add: socket_on_close_def fold_closeHandler_eventTarget list_all_iff)
qed

lemma well_formed_socket_on_close:
  assumes "well_formed s"
  shows "well_formed (socket_on_close s)"
proof -
  let ?s0 = "s\<lparr>socket_close := [], sender := transport_close (sender s)\<rparr>"
  have k: "keeps ?s0 (socket_on_close s)"
    unfolding socket_on_close_def by (rule fold_closeHandler_keeps)
  then obtain P where P: "eventTarget (socket_on_close s) = filter P (eventTarget s)"
    and m: "socket_message (socket_on_close s) = socket_message s"
    unfolding keeps_def by auto
  from assms have "eventTarget (socket_on_close s) \<noteq> [] \<longrightarrow> socket_message (socket_on_close s)"
    unfolding P m well_formed_def by (cases "eventTarget s") auto
  moreover from assms have "list_all typed (eventTarget (socket_on_close s))"
    and "distinct (map key (eventTarget (socket_on_close s)))"
    unfolding P well_formed_def by (simp_all add: list_all_iff distinct_map_filter)
  moreover from socket_on_close_externals [OF assms]
  have "\<forall>r \<in> set (eventTarget (socket_on_close s)). \<forall>sub.
          closure_of (fst (snd r)) = Some sub \<longrightarrow> sub \<in> set (socket_close (socket_on_close s))"
    by (simp add: list_all_iff)
  ultimately show ?thesis by (simp add: well_formed_def)
qed

lemma well_formed_messageHandler:
  assumes "well_formed s"
  shows "well_formed (snd (messageHandler parse raw s))"
proof (cases "parse raw")
  case (Inl d)
  with assms show ?thesis
    by (simp add: messageHandler_def onUnknown_def keeps_well_formed [OF keeps_dispatchEvent])
next
  case (Inr m)
  have b: "well_formed (block ev s)" for ev
    using assms by (simp add: block_def well_formed_def split: option.splits)
  have c: "well_formed (snd (onComplete ev s))" for ev
    using assms b by (simp add: onComplete_def Let_def keeps_well_formed [OF keeps_dispatch_slot])
  from Inr assms show ?thesis
    by (cases m)
      (simp_all add: messageHandler_def onConnectionInit_def onConnectionAck_def onPing_def
        onPong_def onSubscribe_def onNext_def onError_def Let_def c
        keeps_well_formed [OF keeps_dispatch_slot])
qed

lemma well_formed_sender_call: "well_formed (sender_call f s) = well_formed s"
  by (simp add: sender_call_def emit_def well_formed_def)

lemma well_formed_step:
  assumes "well_formed s"
  shows "well_formed (step parse a s)"
proof (cases a)
  case (SocketMessage raw)
  with assms show ?thesis by (simp add: socket_on_message_def well_formed_messageHandler)
next
  case (Assign sl f)
  with assms show ?thesis by (cases sl) (simp_all add: well_formed_def)
next
  case SocketClose
  with assms show ?thesis by (simp add: well_formed_socket_on_close)
next
  case SocketOpen
  with assms show ?thesis by (simp add: socket_on_open_def well_formed_def)
next
  case (CallSubscribe uuid params c e n)
  with assms show ?thesis by (simp add: well_formed_subscribe)
next
  case (CallAddEventListener ty n once)
  with assms show ?thesis by (simp add: well_formed_add_external)
next
  case (CallRemoveEventListener ty n)
  with assms show ?thesis by (simp add: keeps_well_formed [OF keeps_removeEventListener])
next
  case (CallDispatchEvent ev)
  with assms show ?thesis by (simp add: keeps_well_formed [OF keeps_dispatchEvent])
next
  case (CallError i p)
  with assms show ?thesis by (simp add: error_def well_formed_sender_call) (simp add: well_formed_def)
next
  case (CallComplete i)
  with assms show ?thesis by (simp add: complete_def well_formed_sender_call) (simp add: well_formed_def)
qed (simp_all add: assms connectionInit_def connectionAck_def ping_def pong_def next_def
      well_formed_sender_call)

lemma well_formed_run: "well_formed s \<Longrightarrow> well_formed (run parse as s)"
  unfolding run_def by (induction as arbitrary: s) (simp_all add: well_formed_step)

lemma well_formed_reached: "well_formed (run parse as (new_client rs))"
  by (rule well_formed_run [OF well_formed_new])

section \<open>The order of delivery\<close>

lemma slot_call_trace:
  "trace (snd (slot_call name slot ev s)) =
     trace s @ (case slot of None \<Rightarrow> [] | Some f \<Rightarrow> [SlotInvoked name f ev])"
  by (simp add: slot_call_def call_back_trace)

lemma keeps_slots:
  assumes "keeps s s'"
  shows "onconnectioninit s' = onconnectioninit s" and "onconnectionack s' = onconnectionack s"
    and "onping s' = onping s" and "onpong s' = onpong s" and "onsubscribe s' = onsubscribe s"
    and "onnext s' = onnext s" and "onerror s' = onerror s" and "oncomplete s' = oncomplete s"
  using assms by (simp_all add: keeps_def)

lemma dispatch_then_slot:
  assumes "well_formed s"
  shows "trace (snd (slot_call name slot ev (dispatchEvent ev s))) =
           trace s @ Emitted ev # deliveries ev (listeners_of (ev_type ev) s) @
             (case slot of None \<Rightarrow> [] | Some f \<Rightarrow> [SlotInvoked name f ev])"
  by (simp add: slot_call_trace dispatchEvent_trace [OF assms])

lemma block_fields:
  "eventTarget (block ev s) = eventTarget s" "trace (block ev s) = trace s"
  "oncomplete (block ev s) = oncomplete s" "socket_close (block ev s) = socket_close s"
  "socket_message (block ev s) = socket_message s"
  by (simp_all add: block_def split: option.splits)

lemma well_formed_block: "well_formed (block ev s) = well_formed s"
  by (rule well_formed_cong) (simp_all add: block_fields)

lemma listeners_of_block: "listeners_of ty (block ev s) = listeners_of ty s"
  by (simp add: listeners_of_def block_fields)

lemma messageHandler_trace:
  assumes "well_formed s" and "parse raw = Inr m" and "\<not> guarded m s"
  shows "trace (snd (messageHandler parse raw s)) =
           trace s @ Emitted \<lparr>ev_type = event_name m, ev_data = Msg m\<rparr> #
             deliveries \<lparr>ev_type = event_name m, ev_data = Msg m\<rparr> (listeners_of (event_name m) s) @
             (case slot_of m s of
                None \<Rightarrow> []
              | Some f \<Rightarrow> [SlotInvoked (slot_name m) f \<lparr>ev_type = event_name m, ev_data = Msg m\<rparr>])"
proof (cases m)
  case (Complete i)
  from assms show ?thesis
    unfolding Complete
    using dispatch_then_slot [of "block \<lparr>ev_type = ''message'', ev_data = Msg (Complete i)\<rparr> s"
        "''oncomplete''" "oncomplete s" "\<lparr>ev_type = ''complete'', ev_data = Msg (Complete i)\<rparr>"]
    by (simp add: messageHandler_def onComplete_def blocked_def Let_def
        keeps_slots [OF keeps_dispatchEvent] block_fields well_formed_block listeners_of_block
        cong: option.case_cong)
qed (use assms in \<open>simp_all add: messageHandler_def onConnectionInit_def onConnectionAck_def
      onPing_def onPong_def onSubscribe_def onNext_def onError_def blocked_def Let_def
      keeps_slots [OF keeps_dispatchEvent] dispatch_then_slot cong: option.case_cong\<close>)

text \<open>
  C4, as amended.  For every message that is decoded and that the completion guard lets
  through, the dispatcher emits the typed event on the bus first, where the listeners of
  the event's type are invoked in the order of their registration, and invokes the
  single-slot handler of the variant, if one is assigned, after them: the order is the
  reverse of the one that the claim gives.
\<close>

theorem bus_before_slot:
  assumes "parse raw = Inr m" and "\<not> guarded m (run parse as (new_client rs))"
  shows "trace (step parse (SocketMessage raw) (run parse as (new_client rs))) =
           trace (run parse as (new_client rs)) @
           (if socket_message (run parse as (new_client rs))
            then Emitted \<lparr>ev_type = event_name m, ev_data = Msg m\<rparr> #
                 deliveries \<lparr>ev_type = event_name m, ev_data = Msg m\<rparr>
                   (listeners_of (event_name m) (run parse as (new_client rs))) @
                 (case slot_of m (run parse as (new_client rs)) of
                    None \<Rightarrow> []
                  | Some f \<Rightarrow>
                      [SlotInvoked (slot_name m) f \<lparr>ev_type = event_name m, ev_data = Msg m\<rparr>])
            else [])"
  using messageHandler_trace [of "run parse as (new_client rs)" parse raw m] assms
    well_formed_reached [of parse as rs]
  by (simp add: socket_on_message_def)

theorem bus_before_slot_witness:
  "(let parse = (\<lambda>raw. Inr (Ping None));
        s = run parse [Assign Onping (Some (Returns 7)), CallAddEventListener ''ping'' 3 False]
              (new_client OPEN);
        ev = \<lparr>ev_type = ''ping'', ev_data = Msg (Ping None)\<rparr>
    in \<not> guarded (Ping None) s \<and> socket_message s \<and>
       trace (step parse (SocketMessage ''{}'') s) =
         trace s @ [Emitted ev, Invoked (External 3) ev, SlotInvoked ''onping'' (Returns 7) ev])"
  using bus_before_slot [of "\<lambda>raw. Inr (Ping None)" "''{}''" "Ping None"
      "[Assign Onping (Some (Returns 7)), CallAddEventListener ''ping'' 3 False]" OPEN]
  by (simp add: Let_def run_def addEventListener_def add_listener_def registered_def
      new_client_def listeners_of_def deliveries_def)

theorem slot_first_counterexample:
  "trace (step decodes_ping (SocketMessage ''{}'')
            (run decodes_ping
               [Assign Onping (Some (Returns 7)), CallAddEventListener ''ping'' 3 False]
               (new_client OPEN))) =
     [Emitted \<lparr>ev_type = ''ping'', ev_data = Msg (Ping None)\<rparr>,
      Invoked (External 3) \<lparr>ev_type = ''ping'', ev_data = Msg (Ping None)\<rparr>,
      SlotInvoked ''onping'' (Returns 7) \<lparr>ev_type = ''ping'', ev_data = Msg (Ping None)\<rparr>] \<and>
   \<not> slot_first
       (trace (step decodes_ping (SocketMessage ''{}'')
                 (run decodes_ping
                    [Assign Onping (Some (Returns 7)), CallAddEventListener ''ping'' 3 False]
                    (new_client OPEN))))"
  by (simp add: Let_def decodes_ping_def run_def addEventListener_def add_listener_def registered_def
      new_client_def socket_on_message_def messageHandler_def onPing_def dispatchEvent_def
      inner_invoke_def emit_def slot_call_def call_back_def)

section \<open>Decode failures\<close>

lemma unknown_listeners:
  assumes "well_formed s"
  shows "list_all (\<lambda>l. closure_of l = None) (listeners_of UNKNOWN s)"
proof -
  have "closure_of (fst (snd r)) = None" if "r \<in> set (eventTarget s)" "fst r = UNKNOWN" for r
  proof -
    obtain ty l once where r: "r = (ty, l, once)" by (cases r)
    from assms that have "typed r" by (simp add: well_formed_def list_all_iff)
    with r that(2) show ?thesis by (cases l) (simp_all add: UNKNOWN_def)
  qed
  then show ?thesis by (simp add: listeners_of_def list_all_iff)
qed

lemma deliveries_external:
  assumes "list_all (\<lambda>l. closure_of l = None) ls"
  shows "deliveries ev ls = map (\<lambda>l. Invoked l ev) ls"
  using assms
proof (induction ls)
  case Nil
  show ?case by (simp add: deliveries_def)
next
  case (Cons l ls)
  then show ?case by (cases l) (simp_all add: deliveries_def)
qed

text \<open>
  C7.  When the codec reports a failure for a message of the socket, the handler emits one
  event on the bus, of the type \<^verbatim>\<open>unknown\<close> and with the description of the failure as its
  data, and invokes the listeners registered for this type, which are listeners of the
  caller: no closure of a subscription and no single-slot handler is invoked.  The promise
  of the handler is fulfilled, never rejected.
\<close>

theorem decode_failure_unknown:
  assumes "parse raw = Inl description"
  shows "fst (messageHandler parse raw (run parse as (new_client rs))) \<and>
         trace (snd (messageHandler parse raw (run parse as (new_client rs)))) =
           trace (run parse as (new_client rs)) @
           Emitted \<lparr>ev_type = UNKNOWN, ev_data = Str description\<rparr> #
           map (\<lambda>l. Invoked l \<lparr>ev_type = UNKNOWN, ev_data = Str description\<rparr>)
             (listeners_of UNKNOWN (run parse as (new_client rs))) \<and>
         list_all (\<lambda>l. closure_of l = None) (listeners_of UNKNOWN (run parse as (new_client rs)))"
proof -
  let ?s = "run parse as (new_client rs)"
  have wf: "well_formed ?s" by (rule well_formed_reached)
  from unknown_listeners [OF wf] deliveries_external assms show ?thesis
    by (simp add: messageHandler_def onUnknown_def dispatchEvent_trace [OF wf])
qed

theorem decode_failure_unknown_witness:
  "(let parse = (\<lambda>raw. if raw = ''{'' then Inl ''Unexpected end of JSON input''
                        else Inr (Next ''a'' raw));
        s = run parse [CallSubscribe ''a'' ''query'' None None (Some (Returns 1)),
                       CallAddEventListener ''unknown'' 5 False,
                       Assign Onnext (Some (Returns 2))] (new_client OPEN);
        ev = \<lparr>ev_type = ''unknown'', ev_data = Str ''Unexpected end of JSON input''\<rparr>
    in parse ''{'' = Inl ''Unexpected end of JSON input'' \<and>
       socket_message s \<and>
       fst (messageHandler parse ''{'' s) \<and>
       trace (step parse (SocketMessage ''{'') s) =
         trace s @ [Emitted ev, Invoked (External 5) ev])"
  using decode_failure_unknown [of
      "\<lambda>raw. if raw = ''{'' then Inl ''Unexpected end of JSON input'' else Inr (Next ''a'' raw)"
      "''{''" "''Unexpected end of JSON input''"
      "[CallSubscribe ''a'' ''query'' None None (Some (Returns 1)),
        CallAddEventListener ''unknown'' 5 False, Assign Onnext (Some (Returns 2))]" OPEN]
  by (simp add: Let_def run_def subscribe_def sender_subscribe_def send_def
      addEventListener_def add_listener_def registered_def new_client_def emit_def
      listeners_of_def UNKNOWN_def socket_on_message_def)

section \<open>Error messages of a subscription\<close>

lemma registered_mem: "registered ty l regs \<longleftrightarrow> (\<exists>once. (ty, l, once) \<in> set regs)"
  by (auto simp: registered_def list_ex_iff)

lemma inner_invoke_keeps_internal:
  assumes "typed r" and "fst r \<noteq> ''complete''" and "r' \<in> set (eventTarget s)"
    and "closure_of (fst (snd r')) \<noteq> None"
  shows "r' \<in> set (eventTarget (inner_invoke ev r s))"
proof (cases "r \<in> set (eventTarget s)")
  case False
  with assms(3) show ?thesis by (cases r) (simp add: inner_invoke_def)
next
  case True
  obtain ty l once where r: "r = (ty, l, once)" by (cases r)
  let ?s1 = "emit (Invoked l ev) (if once then removeEventListener ty l s else s)"
  from assms(2) r have ty: "ty \<noteq> ''complete''" by simp
  have not_completed: "\<forall>sub. l \<noteq> CompletedHandler sub"
  proof (intro allI notI)
    fix sub assume "l = CompletedHandler sub"
    with assms(1) r ty show False by simp
  qed
  from assms(1) r ty have "once \<longrightarrow> closure_of l = None" by (cases l) simp_all
  with assms(3,4) have in1: "r' \<in> set (eventTarget ?s1)"
    by (cases r') (auto simp: emit_def removeEventListener_def remove_listener_def)
  from invoke_eventTarget [of l ev ?s1] not_completed
  have "eventTarget (invoke l ev ?s1) = eventTarget ?s1" by blast
  with in1 True r show ?thesis by (simp add: inner_invoke_def)
qed

lemma fold_inner_invoke_keeps_internal:
  assumes "list_all typed rs" and "\<forall>r \<in> set rs. fst r \<noteq> ''complete''"
    and "r' \<in> set (eventTarget s)" and "closure_of (fst (snd r')) \<noteq> None"
  shows "r' \<in> set (eventTarget (fold (inner_invoke ev) rs s))"
  using assms
proof (induction rs arbitrary: s)
  case Nil
  then show ?case by simp
next
  case (Cons r rs)
  from Cons.prems have "r' \<in> set (eventTarget (inner_invoke ev r s))"
    by (intro inner_invoke_keeps_internal) simp_all
  with Cons.prems show ?case by (simp add: Cons.IH)
qed

lemma dispatch_keeps_internal:
  assumes "well_formed s" and "ev_type ev \<noteq> ''complete''" and "r' \<in> set (eventTarget s)"
    and "closure_of (fst (snd r')) \<noteq> None"
  shows "r' \<in> set (eventTarget (dispatchEvent ev s))"
  unfolding dispatchEvent_def
proof (rule fold_inner_invoke_keeps_internal)
  from assms(1) show "list_all typed (filter (\<lambda>(ty, l, once). ty = ev_type ev) (eventTarget s))"
    by (simp add: well_formed_def list_all_iff)
  from assms(2) show "\<forall>r \<in> set (filter (\<lambda>(ty, l, once). ty = ev_type ev) (eventTarget s)).
      fst r \<noteq> ''complete''"
    by auto
  from assms(3) show "r' \<in> set (eventTarget (emit (Emitted ev) s))"
    by (simp add: emit_def)
  from assms(4) show "closure_of (fst (snd r')) \<noteq> None" .
qed

lemma distinct_listeners_of:
  assumes "well_formed s"
  shows "distinct (listeners_of ty s)"
proof -
  from assms have "distinct (map key (filter (\<lambda>r. fst r = ty) (eventTarget s)))"
    by (simp add: well_formed_def distinct_map_filter)
  then have "distinct (map (\<lambda>r. fst (snd r)) (filter (\<lambda>r. fst r = ty) (eventTarget s)))"
    by (auto simp: distinct_map inj_on_def key_def)
  then show ?thesis by (simp add: listeners_of_def)
qed

lemma filter_concat_single:
  assumes "distinct ls" and "l \<in> set ls"
    and "\<forall>l' \<in> set ls. l' \<noteq> l \<longrightarrow> filter Q (g l') = []"
  shows "filter Q (concat (map g ls)) = filter Q (g l)"
  using assms
proof (induction ls)
  case Nil
  then show ?case by simp
next
  case (Cons k ls)
  show ?case
  proof (cases "k = l")
    case True
    with Cons.prems have "\<forall>l' \<in> set ls. filter Q (g l') = []" by auto
    then have "filter Q (concat (map g ls)) = []"
      by (induction ls) simp_all
    with True show ?thesis by simp
  next
    case False
    with Cons.prems have "filter Q (g k) = []" and "l \<in> set ls" by auto
    with Cons.prems Cons.IH show ?thesis by simp
  qed
qed

lemma error_listeners:
  assumes "well_formed s" and "l \<in> set (listeners_of ''error'' s)"
  shows "(\<exists>sub. l = ErrorHandler sub) \<or> (\<exists>n. l = External n)"
proof -
  from assms(2) obtain once where "(''error'', l, once) \<in> set (eventTarget s)"
    by (force simp: listeners_of_def)
  with assms(1) have "typed (''error'', l, once)"
    by (simp add: well_formed_def list_all_iff)
  then show ?thesis by (cases l) simp_all
qed

lemma messageHandler_Error_eventTarget:
  assumes "well_formed s" and "parse raw = Inr (Error i p)"
    and "registered ty l (eventTarget s)" and "closure_of l \<noteq> None"
  shows "registered ty l (eventTarget (snd (messageHandler parse raw s)))"
proof -
  from assms(3) obtain once where r: "(ty, l, once) \<in> set (eventTarget s)"
    unfolding registered_mem by blast
  have "eventTarget (snd (slot_call name slot ev t)) = eventTarget t" for name slot ev t
    by (simp add: slot_call_def call_back_def emit_def split: option.splits)
  with assms(2,4) r dispatch_keeps_internal [OF assms(1) _ r]
  have "(ty, l, once) \<in> set (eventTarget (snd (messageHandler parse raw s)))"
    by (simp add: messageHandler_def onError_def Let_def)
  then show ?thesis unfolding registered_mem by blast
qed

text \<open>
  As long as the three closures of a subscription are registered and the completion guard
  does not hold its identifier, an inbound Error for the identifier invokes the caller's
  \<^verbatim>\<open>onError\<close> once, with the payload of the message, and nothing else that belongs to the
  subscription happens; the completion-guard set is the same afterwards and the three
  closures are still registered.
\<close>

lemma error_keeps_listening:
  assumes "listening sub (run parse as (new_client rs))"
    and "sub_id sub \<notin> completedIds (run parse as (new_client rs))"
    and "parse raw = Inr (Error (sub_id sub) p)"
  shows "listening sub (step parse (SocketMessage raw) (run parse as (new_client rs))) \<and>
         completedIds (step parse (SocketMessage raw) (run parse as (new_client rs))) =
           completedIds (run parse as (new_client rs)) \<and>
         filter (concerns sub)
           (drop (length (trace (run parse as (new_client rs))))
              (trace (step parse (SocketMessage raw) (run parse as (new_client rs))))) =
           (case sub_onError sub of None \<Rightarrow> [] | Some f \<Rightarrow> [OnError sub f (Errors p)])"
proof -
  let ?s = "run parse as (new_client rs)"
  let ?ev = "\<lparr>ev_type = ''error'', ev_data = Msg (Error (sub_id sub) p)\<rparr>"
  let ?ls = "listeners_of ''error'' ?s"
  have wf: "well_formed ?s" by (rule well_formed_reached)
  from assms(1) have "eventTarget ?s \<noteq> []"
    by (auto simp: listening_def registered_mem)
  with wf have attached: "socket_message ?s" by (simp add: well_formed_def)
  then have step: "step parse (SocketMessage raw) ?s = snd (messageHandler parse raw ?s)"
    by (simp add: socket_on_message_def)
  have "listening sub (snd (messageHandler parse raw ?s))"
    using assms(1)
      messageHandler_Error_eventTarget [of ?s parse raw "sub_id sub" p, OF wf assms(3)]
    unfolding listening_def by simp
  moreover have "completedIds (snd (messageHandler parse raw ?s)) = completedIds ?s"
    using assms(3)
    by (simp add: messageHandler_def onError_def Let_def keeps_completedIds [OF keeps_dispatch_slot])
  moreover have "filter (concerns sub) (drop (length (trace ?s)) (trace (snd (messageHandler parse raw ?s)))) =
      (case sub_onError sub of None \<Rightarrow> [] | Some f \<Rightarrow> [OnError sub f (Errors p)])"
  proof -
    from assms(1) have mem: "ErrorHandler sub \<in> set ?ls"
      by (force simp: listening_def registered_mem listeners_of_def)
    have others: "\<forall>l' \<in> set ?ls. l' \<noteq> ErrorHandler sub \<longrightarrow>
        filter (concerns sub) (Invoked l' ?ev # reaction l' ?ev) = []"
    proof (intro ballI impI)
      fix l' assume l': "l' \<in> set ?ls" and other: "l' \<noteq> ErrorHandler sub"
      from error_listeners [OF wf l'] consider
        (closure) sub' where "l' = ErrorHandler sub'" | (external) n where "l' = External n"
        by blast
      then show "filter (concerns sub) (Invoked l' ?ev # reaction l' ?ev) = []"
      proof cases
        case closure
        with other have neq: "sub' \<noteq> sub" by simp
        have "filter (concerns sub) (reaction (ErrorHandler sub') ?ev) = []"
        proof (cases "sub_onError sub'")
          case None
          then show ?thesis
            by (simp only: reaction.simps option.case if_cancel filter.simps)
        next
          case (Some f)
          from neq have "\<not> concerns sub (OnError sub' f (data_payload (ev_data ?ev)))"
            by simp
          then have "filter (concerns sub) (if c then [OnError sub' f (data_payload (ev_data ?ev))] else []) = []" for c
            by (cases c) (simp_all only: filter.simps if_True if_False)
          with Some show ?thesis
            by (simp only: reaction.simps option.case)
        qed
        with closure show ?thesis
          by (simp only: filter.simps concerns.simps if_False)
      next
        case external
        then show ?thesis by simp
      qed
    qed
    have "filter (concerns sub) (deliveries ?ev ?ls) =
            filter (concerns sub) (Invoked (ErrorHandler sub) ?ev # reaction (ErrorHandler sub) ?ev)"
      unfolding deliveries_def
      by (rule filter_concat_single [OF distinct_listeners_of [OF wf] mem others])
    then have "filter (concerns sub) (deliveries ?ev ?ls) =
            (case sub_onError sub of None \<Rightarrow> [] | Some f \<Rightarrow> [OnError sub f (Errors p)])"
      by (simp split: option.splits)
    moreover from assms(2) have "\<not> guarded (Error (sub_id sub) p) ?s"
      by simp
    note messageHandler_trace [of ?s parse raw "Error (sub_id sub) p", OF wf assms(3) this]
    ultimately show ?thesis
      by (simp split: option.splits)
  qed
  ultimately show ?thesis unfolding step by simp
qed

text \<open>
  C5.  The claim fails on the code.  A subscription of the identifier \<^verbatim>\<open>a\<close> is in the Active
  state of the specification until a Complete for \<^verbatim>\<open>a\<close> arrives or the transport closes.
  Here the socket delivers a Complete for the identifier \<^verbatim>\<open>b\<close> first: the completed handler
  of the subscription, which does not compare the identifiers before it removes the
  listeners, takes the error listener of \<^verbatim>\<open>a\<close> off the bus.  The Error for \<^verbatim>\<open>a\<close> that
  arrives next is not held back by the completion guard and is emitted on the bus, but
  \<^verbatim>\<open>onError\<close> is not invoked.
\<close>

theorem error_after_foreign_complete:
  "(let sub = \<lparr>sub_key = 0, sub_id = ''a'', sub_onNext = Some (Returns 1),
               sub_onError = Some (Returns 2), sub_onComplete = Some (Returns 3),
               sub_dispose = Some 0\<rparr>;
        s0 = run decodes_late_error
               [CallSubscribe ''a'' ''query'' (Some (Returns 3)) (Some (Returns 2))
                  (Some (Returns 1))] (new_client OPEN);
        s = step decodes_late_error (SocketMessage ''c'') s0;
        s' = step decodes_late_error (SocketMessage ''boom'') s
    in listening sub s0 \<and>
       trace s = trace s0 @
         [Emitted \<lparr>ev_type = ''complete'', ev_data = Msg (Complete ''b'')\<rparr>,
          Invoked (CompletedHandler sub) \<lparr>ev_type = ''complete'', ev_data = Msg (Complete ''b'')\<rparr>,
          Disposed sub 0] \<and>
       completedIds s = {''b''} \<and>
       socket_message s \<and>
       socket_close s = [sub] \<and>
       trace s' = trace s @ [Emitted \<lparr>ev_type = ''error'', ev_data = Msg (Error ''a'' [''boom''])\<rparr>] \<and>
       filter (concerns sub) (drop (length (trace s)) (trace s')) = [])"
  by (simp add: Let_def decodes_late_error_def run_def subscribe_def sender_subscribe_def
      send_def addEventListener_def add_listener_def registered_def new_client_def emit_def
      listening_def socket_on_message_def messageHandler_def onComplete_def onError_def
      blocked_def block_def dispatchEvent_def inner_invoke_def completedHandler_def
      completeHandler_def disposeSubscribeMessageSending_def dispose_def call_back_def
      slot_call_def removeEventListener_def remove_listener_def)

section \<open>The socket's close event\<close>

lemma fold_closeHandler_trace: "trace (fold closeHandler subs s) = trace s"
  by (induction subs arbitrary: s) (simp_all add: closeHandler_def removeEventListener_def)

lemma externals_not_registered:
  assumes "list_all (\<lambda>r. closure_of (fst (snd r)) = None) regs" and "closure_of l \<noteq> None"
  shows "\<not> registered ty l regs"
  using assms by (force simp: registered_mem list_all_iff)

text \<open>
  C6.  When the socket's \<^verbatim>\<open>close\<close> event fires, no closure of any subscription stays
  registered on the bus, under any type, and the trace stays the same: none of the
  callbacks \<^verbatim>\<open>onNext\<close>, \<^verbatim>\<open>onError\<close> and \<^verbatim>\<open>onComplete\<close> is invoked, and nothing else is.
\<close>

theorem close_detaches_silently:
  "trace (step parse SocketClose (run parse as (new_client rs))) =
     trace (run parse as (new_client rs)) \<and>
   \<not> registered ty (NextHandler sub)
       (eventTarget (step parse SocketClose (run parse as (new_client rs)))) \<and>
   \<not> registered ty (ErrorHandler sub)
       (eventTarget (step parse SocketClose (run parse as (new_client rs)))) \<and>
   \<not> registered ty (CompletedHandler sub)
       (eventTarget (step parse SocketClose (run parse as (new_client rs))))"
proof -
  let ?s = "run parse as (new_client rs)"
  have "list_all (\<lambda>r. closure_of (fst (snd r)) = None) (eventTarget (socket_on_close ?s))"
    by (rule socket_on_close_externals [OF well_formed_reached])
  from externals_not_registered [OF this] show ?thesis
    by (simp add: socket_on_close_def fold_closeHandler_trace)
qed

theorem close_detaches_silently_witness:
  "(let parse = (\<lambda>raw. Inl ''bad'');
        sub = \<lparr>sub_key = 0, sub_id = ''a'', sub_onNext = Some (Returns 1),
               sub_onError = Some (Returns 2), sub_onComplete = Some (Returns 3),
               sub_dispose = Some 0\<rparr>;
        s = run parse [CallSubscribe ''a'' ''query'' (Some (Returns 3)) (Some (Returns 2))
                         (Some (Returns 1))] (new_client OPEN)
    in listening sub s \<and>
       trace (step parse SocketClose s) = trace s \<and>
       \<not> registered ''next'' (NextHandler sub) (eventTarget (step parse SocketClose s)) \<and>
       \<not> registered ''error'' (ErrorHandler sub) (eventTarget (step parse SocketClose s)) \<and>
       \<not> registered ''complete'' (CompletedHandler sub) (eventTarget (step parse SocketClose s)))"
  using close_detaches_silently [of "\<lambda>raw. Inl ''bad''"
      "[CallSubscribe ''a'' ''query'' (Some (Returns 3)) (Some (Returns 2)) (Some (Returns 1))]"
      OPEN]
  by (simp add: Let_def run_def subscribe_def sender_subscribe_def send_def
      addEventListener_def add_listener_def registered_def new_client_def emit_def listening_def)

section \<open>Before the first listener\<close>

lemma quiet_step:
  assumes "\<not> socket_message s" and "\<not> attaches a"
  shows "\<not> socket_message (step parse a s) \<and>
         (is_message a \<longrightarrow> step parse a s = s)"
proof (cases a)
  case (Assign sl f)
  with assms show ?thesis by (cases sl) simp_all
next
  case SocketClose
  with assms show ?thesis
    using keeps_socket_message [OF fold_closeHandler_keeps]
    by (simp add: socket_on_close_def)
qed (use assms in \<open>simp_all add: connectionInit_def connectionAck_def ping_def pong_def
      next_def error_def complete_def sender_call_def emit_def removeEventListener_def
      socket_on_open_def socket_on_message_def keeps_socket_message [OF keeps_dispatchEvent]\<close>)

lemma quiet_run:
  assumes "\<not> socket_message s" and "\<not> list_ex attaches as"
  shows "\<not> socket_message (run parse as s) \<and>
         run parse as s = run parse (filter (\<lambda>a. \<not> is_message a) as) s"
  using assms
proof (induction as arbitrary: s)
  case Nil
  then show ?case by (simp add: run_def)
next
  case (Cons a as)
  from Cons.prems have a: "\<not> attaches a" and as: "\<not> list_ex attaches as" by simp_all
  from quiet_step [OF Cons.prems(1) a]
  have q: "\<not> socket_message (step parse a s)" and m: "is_message a \<longrightarrow> step parse a s = s"
    by simp_all
  from Cons.IH [OF q as] m show ?case
    by (auto simp: run_def)
qed

text \<open>
  C9.  \<^verbatim>\<open>#messageHandler\<close> is added to the socket inside \<^verbatim>\<open>addEventListener\<close>, which
  \<^verbatim>\<open>subscribe\<close> calls, and nowhere else.  As long as a new client has seen neither call,
  whatever else has happened to it (handler fields assigned, frames sent, events of the
  socket), the handler is not on the socket and the messages of the socket have no effect
  at all: the run ends in the state in which it ends without them.
\<close>

theorem no_dispatch_before_listening:
  assumes "\<not> list_ex attaches as"
  shows "\<not> socket_message (run parse as (new_client rs)) \<and>
         run parse as (new_client rs) =
           run parse (filter (\<lambda>a. \<not> is_message a) as) (new_client rs) \<and>
         socket_message (addEventListener ty l once s) \<and>
         socket_message (subscribe uuid params c e n s)"
proof -
  have "\<not> socket_message (new_client rs)" by (simp add: new_client_def)
  from quiet_run [OF this assms, of parse]
  have "\<not> socket_message (run parse as (new_client rs))"
    and "run parse as (new_client rs) =
           run parse (filter (\<lambda>a. \<not> is_message a) as) (new_client rs)"
    by blast+
  moreover have "socket_message (addEventListener ty l once s)"
    and "socket_message (subscribe uuid params c e n s)"
    by (simp_all add: addEventListener_def subscribe_def Let_def case_prod_beta emit_def)
  ultimately show ?thesis by blast
qed

theorem no_dispatch_before_listening_witness:
  "(let parse = (\<lambda>raw. Inr (Next ''a'' raw));
        as = [Assign Onnext (Some (Returns 1)), SocketMessage ''{}'', CallPing None]
    in \<not> list_ex attaches as \<and>
       trace (run parse as (new_client OPEN)) = [SenderCalled (Ping None)] \<and>
       run parse as (new_client OPEN) =
         run parse [Assign Onnext (Some (Returns 1)), CallPing None] (new_client OPEN) \<and>
       trace (run parse (CallAddEventListener ''open'' 0 False # as) (new_client OPEN)) =
         [Emitted \<lparr>ev_type = ''next'', ev_data = Msg (Next ''a'' ''{}'')\<rparr>,
          SlotInvoked ''onnext'' (Returns 1) \<lparr>ev_type = ''next'', ev_data = Msg (Next ''a'' ''{}'')\<rparr>,
          SenderCalled (Ping None)])"
  using no_dispatch_before_listening [of
      "[Assign Onnext (Some (Returns 1)), SocketMessage ''{}'', CallPing None]"
      "\<lambda>raw. Inr (Next ''a'' raw)" OPEN]
  by (simp add: Let_def run_def new_client_def ping_def sender_call_def emit_def send_def
      addEventListener_def add_listener_def registered_def socket_on_message_def
      messageHandler_def onNext_def blocked_def dispatchEvent_def slot_call_def call_back_def)

section \<open>Where the closures of a subscription are removed\<close>

lemma registered_add_listener:
  "registered ty l regs \<Longrightarrow> registered ty l (add_listener ty' l' once regs)"
  by (auto simp: registered_mem add_listener_def)

lemma slot_call_eventTarget: "eventTarget (snd (slot_call name slot ev s)) = eventTarget s"
  by (simp add: slot_call_def call_back_def emit_def split: option.splits)

lemma dispatch_keeps_registered:
  assumes "well_formed s" and "ev_type ev \<noteq> ''complete''"
    and "registered ty l (eventTarget s)" and "closure_of l \<noteq> None"
  shows "registered ty l (eventTarget (dispatchEvent ev s))"
proof -
  from assms(3) obtain once where r: "(ty, l, once) \<in> set (eventTarget s)"
    unfolding registered_mem by blast
  from assms(4) have "closure_of (fst (snd (ty, l, once))) \<noteq> None" by simp
  from dispatch_keeps_internal [OF assms(1,2) r this] show ?thesis
    unfolding registered_mem by blast
qed

lemma messageHandler_keeps_registered:
  assumes "well_formed s"
    and "\<not> (case parse raw of Inr (Complete i) \<Rightarrow> i \<notin> completedIds s | _ \<Rightarrow> False)"
    and "registered ty l (eventTarget s)" and "closure_of l \<noteq> None"
  shows "registered ty l (eventTarget (snd (messageHandler parse raw s)))"
proof (cases "parse raw")
  case (Inl d)
  with assms(3) dispatch_keeps_registered [OF assms(1) _ assms(3,4)] show ?thesis
    by (simp add: messageHandler_def onUnknown_def UNKNOWN_def)
next
  case (Inr m)
  with assms(2) have held: "\<forall>i. m = Complete i \<longrightarrow> i \<in> completedIds s" by auto
  with Inr assms(3) dispatch_keeps_registered [OF assms(1) _ assms(3,4)] show ?thesis
    by (cases m)
      (simp_all add: messageHandler_def onConnectionInit_def onConnectionAck_def onPing_def
        onPong_def onSubscribe_def onNext_def onError_def onComplete_def blocked_def Let_def
        slot_call_eventTarget)
qed

lemma step_keeps_registered:
  assumes "well_formed s" and "\<not> detaching parse s a"
    and "registered ty l (eventTarget s)" and "closure_of l \<noteq> None"
  shows "registered ty l (eventTarget (step parse a s))"
proof (cases a)
  case (SocketMessage raw)
  show ?thesis
  proof (cases "socket_message s")
    case False
    with SocketMessage assms(3) show ?thesis by (simp add: socket_on_message_def)
  next
    case True
    with SocketMessage assms(2)
    have "\<not> (case parse raw of Inr (Complete i) \<Rightarrow> i \<notin> completedIds s | _ \<Rightarrow> False)"
      by simp
    from messageHandler_keeps_registered [of s parse raw ty l, OF assms(1) this assms(3,4)]
      True SocketMessage
    show ?thesis by (simp add: socket_on_message_def)
  qed
next
  case (Assign sl f)
  with assms(3) show ?thesis by (cases sl) simp_all
next
  case (CallSubscribe uuid params c e n)
  with assms(3) show ?thesis
    by (simp add: subscribe_def Let_def case_prod_beta addEventListener_def emit_def
        registered_add_listener)
next
  case (CallAddEventListener ty' n once)
  with assms(3) show ?thesis
    by (simp add: addEventListener_def registered_add_listener)
next
  case (CallRemoveEventListener ty' n)
  with assms(3,4) show ?thesis
    by (auto simp: removeEventListener_def remove_listener_def registered_mem)
next
  case (CallDispatchEvent ev)
  with assms(2) dispatch_keeps_registered [OF assms(1) _ assms(3,4), of ev]
  show ?thesis by simp
next
  case SocketClose
  with assms(2) show ?thesis by simp
qed (use assms(3) in \<open>simp_all add: connectionInit_def connectionAck_def ping_def pong_def
      next_def error_def complete_def sender_call_def emit_def socket_on_open_def\<close>)

text \<open>
  C10, as amended.  A call of \<^verbatim>\<open>complete(id)\<close> or \<^verbatim>\<open>error(id, ...)\<close> leaves the listeners of
  the bus and the close handlers of the socket as they are, puts the identifier into the
  completion-guard set, and adds to the trace the call of the sender, if the identifier
  was not in the set, and nothing else: no callback of a subscription is invoked.  A
  closure of a subscription is removed from the bus only by an action that dispatches an
  event of the type \<^verbatim>\<open>complete\<close> on the bus, which is an inbound Complete that reaches
  \<^verbatim>\<open>#messageHandler\<close> and that the completion guard lets through, or a call of the public
  \<^verbatim>\<open>dispatchEvent\<close> with such an event, or by the socket's \<^verbatim>\<open>close\<close> event.
\<close>

theorem local_terminal_detaches_nothing:
  "eventTarget (complete i s) = eventTarget s \<and>
   socket_close (complete i s) = socket_close s \<and>
   completedIds (complete i s) = insert i (completedIds s) \<and>
   trace (complete i s) = trace s @ (if i \<in> completedIds s then [] else [SenderCalled (Complete i)]) \<and>
   eventTarget (error i p s) = eventTarget s \<and>
   socket_close (error i p s) = socket_close s \<and>
   completedIds (error i p s) = insert i (completedIds s) \<and>
   trace (error i p s) = trace s @ (if i \<in> completedIds s then [] else [SenderCalled (Error i p)]) \<and>
   (closure_of l \<noteq> None \<and>
    registered ty l (eventTarget (run parse as (new_client rs))) \<and>
    \<not> registered ty l (eventTarget (step parse a (run parse as (new_client rs))))
    \<longrightarrow> detaching parse (run parse as (new_client rs)) a)"
proof -
  have "detaching parse (run parse as (new_client rs)) a"
    if "closure_of l \<noteq> None" "registered ty l (eventTarget (run parse as (new_client rs)))"
      "\<not> registered ty l (eventTarget (step parse a (run parse as (new_client rs))))"
    using that
      step_keeps_registered [OF well_formed_reached [of parse as rs], of parse a ty l]
    by blast
  then show ?thesis
    by (auto simp: complete_def error_def sender_call_def emit_def)
qed

theorem local_terminal_detaches_nothing_witness:
  "(let parse = (\<lambda>raw. Inr (Complete raw));
        sub = \<lparr>sub_key = 0, sub_id = ''a'', sub_onNext = Some (Returns 1),
               sub_onError = None, sub_onComplete = Some (Returns 3), sub_dispose = Some 0\<rparr>;
        s = run parse [CallSubscribe ''a'' ''query'' (Some (Returns 3)) None (Some (Returns 1))]
              (new_client OPEN)
    in listening sub s \<and>
       listening sub (complete ''a'' s) \<and>
       trace (complete ''a'' s) = trace s @ [SenderCalled (Complete ''a'')] \<and>
       registered ''next'' (NextHandler sub) (eventTarget s) \<and>
       \<not> registered ''next'' (NextHandler sub) (eventTarget (step parse (SocketMessage ''a'') s)) \<and>
       detaching parse s (SocketMessage ''a'') \<and>
       \<not> detaching parse (complete ''a'' s) (SocketMessage ''a'') \<and>
       listening sub (step parse (SocketMessage ''a'') (complete ''a'' s)))"
  using local_terminal_detaches_nothing [of "''a''"
      "run (\<lambda>raw. Inr (Complete raw))
         [CallSubscribe ''a'' ''query'' (Some (Returns 3)) None (Some (Returns 1))] (new_client OPEN)"
      "[]"
      "NextHandler \<lparr>sub_key = 0, sub_id = ''a'', sub_onNext = Some (Returns 1),
               sub_onError = None, sub_onComplete = Some (Returns 3), sub_dispose = Some 0\<rparr>"
      "''next''" "\<lambda>raw. Inr (Complete raw)"
      "[CallSubscribe ''a'' ''query'' (Some (Returns 3)) None (Some (Returns 1))]" OPEN
      "SocketMessage ''a''"]
  by (simp add: Let_def run_def subscribe_def sender_subscribe_def send_def
      addEventListener_def add_listener_def registered_def new_client_def emit_def listening_def
      complete_def sender_call_def socket_on_message_def messageHandler_def onComplete_def
      blocked_def block_def dispatchEvent_def inner_invoke_def completedHandler_def
      completeHandler_def disposeSubscribeMessageSending_def dispose_def call_back_def
      slot_call_def removeEventListener_def remove_listener_def)

theorem detached_by_dispatchEvent_counterexample:
  "registered ''next''
     (NextHandler \<lparr>sub_key = 0, sub_id = ''a'', sub_onNext = Some (Returns 1),
        sub_onError = None, sub_onComplete = Some (Returns 3), sub_dispose = Some 0\<rparr>)
     (eventTarget
        (run decodes_nothing
           [CallSubscribe ''a'' ''query'' (Some (Returns 3)) None (Some (Returns 1))]
           (new_client OPEN))) \<and>
   \<not> registered ''next''
     (NextHandler \<lparr>sub_key = 0, sub_id = ''a'', sub_onNext = Some (Returns 1),
        sub_onError = None, sub_onComplete = Some (Returns 3), sub_dispose = Some 0\<rparr>)
     (eventTarget
        (step decodes_nothing
           (CallDispatchEvent \<lparr>ev_type = ''complete'', ev_data = Msg (Complete ''a'')\<rparr>)
           (run decodes_nothing
              [CallSubscribe ''a'' ''query'' (Some (Returns 3)) None (Some (Returns 1))]
              (new_client OPEN)))) \<and>
   \<not> is_message (CallDispatchEvent \<lparr>ev_type = ''complete'', ev_data = Msg (Complete ''a'')\<rparr>) \<and>
   CallDispatchEvent \<lparr>ev_type = ''complete'', ev_data = Msg (Complete ''a'')\<rparr> \<noteq> SocketClose"
  by (simp add: Let_def run_def subscribe_def sender_subscribe_def send_def
      addEventListener_def add_listener_def registered_def new_client_def emit_def
      dispatchEvent_def inner_invoke_def completedHandler_def
      completeHandler_def disposeSubscribeMessageSending_def dispose_def call_back_def
      removeEventListener_def remove_listener_def)

section \<open>The pending-send queue\<close>

lemma send_connecting:
  assumes "readyState sd = CONNECTING"
  shows "readyState (snd (send frame sd)) = CONNECTING"
    and "transmitted (snd (send frame sd)) = transmitted sd"
    and "issued (snd (send frame sd)) = Suc (issued sd)"
    and "queue (snd (send frame sd)) =
           queue sd @ [\<lparr>p_token = issued sd, p_frame = frame, p_cancelled = False\<rparr>]"
  using assms by (simp_all add: send_def Let_def)

lemma dispose_fields:
  "readyState (dispose token sd) = readyState sd"
  "transmitted (dispose token sd) = transmitted sd"
  "issued (dispose token sd) = issued sd"
  "map p_frame (queue (dispose token sd)) = map p_frame (queue sd)"
  by (simp_all add: dispose_def comp_def if_distrib)

lemma cancel_filter:
  "map p_frame (filter (\<lambda>e. \<not> p_cancelled e \<and> Q (p_token e))
     (map (\<lambda>e. if p_token e = token then e\<lparr>p_cancelled := True\<rparr> else e) q)) =
   map p_frame (filter (\<lambda>e. \<not> p_cancelled e \<and> p_token e \<noteq> token \<and> Q (p_token e)) q)"
  by (induction q) auto

lemma dispose_filter:
  "map p_frame (filter (\<lambda>e. \<not> p_cancelled e \<and> Q (p_token e)) (queue (dispose token sd))) =
   map p_frame (filter (\<lambda>e. \<not> p_cancelled e \<and> p_token e \<noteq> token \<and> Q (p_token e)) (queue sd))"
  by (simp add: dispose_def cancel_filter)

lemma fold_apply_op:
  assumes "readyState sd = CONNECTING"
  shows "readyState (fold apply_op ops sd) = CONNECTING \<and>
         transmitted (fold apply_op ops sd) = transmitted sd \<and>
         map p_frame (queue (fold apply_op ops sd)) = map p_frame (queue sd) @ requested ops \<and>
         map p_frame (filter (\<lambda>e. \<not> p_cancelled e) (queue (fold apply_op ops sd))) =
           map p_frame (filter (\<lambda>e. \<not> p_cancelled e \<and> Dispose (p_token e) \<notin> set ops) (queue sd)) @
           expect (issued sd) ops"
  using assms
proof (induction ops arbitrary: sd)
  case Nil
  then show ?case by simp
next
  case (Cons op ops)
  show ?case
  proof (cases op)
    case (Send frame)
    note c = send_connecting [OF Cons.prems, of frame]
    from Cons.IH [OF c(1)] Send show ?thesis
      by (simp add: c)
  next
    case (Dispose token)
    from Cons.prems have "readyState (dispose token sd) = CONNECTING"
      by (simp add: dispose_fields)
    from Cons.IH [OF this] Dispose show ?thesis
      by (simp add: dispose_fields dispose_filter [where Q = "\<lambda>t. Dispose t \<notin> set ops"])
  qed
qed

lemma expect_sends: "expect n (map Send frames) = frames"
  by (induction frames arbitrary: n) auto

lemma requested_sends: "requested (map Send frames) = frames"
  by (induction frames) simp_all

lemma sending_step:
  assumes "sending a"
  shows "sender (step parse a s) = fold apply_op (map Send (handed a s)) (sender s)"
  using assms
  by (cases a)
    (simp_all add: connectionInit_def connectionAck_def ping_def pong_def next_def error_def
      complete_def sender_call_def emit_def subscribe_def sender_subscribe_def Let_def
      case_prod_beta addEventListener_def)

lemma sending_run:
  assumes "list_all sending as"
  shows "sender (run parse as s) = fold apply_op (map Send (handed_run parse as s)) (sender s)"
  using assms
proof (induction as arbitrary: s)
  case Nil
  show ?case by (simp add: run_def)
next
  case (Cons a as)
  then have "sender (run parse as (step parse a s)) =
      fold apply_op (map Send (handed_run parse as (step parse a s))) (sender (step parse a s))"
    by simp
  with Cons.prems show ?case by (simp add: run_def sending_step)
qed

lemma run_calls: "calls (trace (run parse as s)) = calls (trace s) @ handed_run parse as s"
  by (induction as arbitrary: s) (simp_all add: run_def step_calls)

text \<open>
  C8.  While the transport is connecting, every frame that is sent is appended to the
  pending-send queue and none is transmitted.  When the transport becomes ready, the
  frames of the queue are transmitted in the order of the send calls, without those whose
  disposer was invoked before, and the queue is empty afterwards, so that a frame is
  transmitted once.  For the client: the frames that its sending methods hand to the
  sender while the transport is connecting are the ones transmitted when the socket opens,
  in the order of the calls.
\<close>

theorem queued_frames_sent_in_order:
  assumes "readyState sd = CONNECTING" and "queue sd = []"
  shows "map p_frame (queue (fold apply_op ops sd)) = requested ops \<and>
         transmitted (fold apply_op ops sd) = transmitted sd \<and>
         transmitted (transport_open (fold apply_op ops sd)) =
           transmitted sd @ expect (issued sd) ops \<and>
         queue (transport_open (fold apply_op ops sd)) = [] \<and>
         transport_open (transport_open (fold apply_op ops sd)) =
           transport_open (fold apply_op ops sd) \<and>
         (list_all sending as \<and> sender s = sd \<longrightarrow>
            calls (trace (run parse as s)) = calls (trace s) @ handed_run parse as s \<and>
            transmitted (sender (run parse as s)) = transmitted sd \<and>
            transmitted (sender (step parse SocketOpen (run parse as s))) =
              transmitted sd @ handed_run parse as s)"
proof -
  note f = fold_apply_op [OF assms(1)]
  have a: "map p_frame (queue (fold apply_op ops sd)) = requested ops"
    and b: "transmitted (fold apply_op ops sd) = transmitted sd"
    and c: "transmitted (transport_open (fold apply_op ops sd)) = transmitted sd @ expect (issued sd) ops"
    and d: "queue (transport_open (fold apply_op ops sd)) = []"
    and e: "transport_open (transport_open (fold apply_op ops sd)) =
              transport_open (fold apply_op ops sd)"
    using f [of ops] assms(2) by (simp_all add: transport_open_def flush_def)
  have g: "transmitted (sender (run parse as s)) = transmitted sd \<and>
           transmitted (sender (step parse SocketOpen (run parse as s))) =
             transmitted sd @ handed_run parse as s"
    if "list_all sending as" "sender s = sd"
    using f [of "map Send (handed_run parse as s)"] assms(2) that
    by (simp add: sending_run socket_on_open_def transport_open_def flush_def expect_sends)
  from a b c d e g run_calls [of parse as s] show ?thesis by blast
qed

theorem queued_frames_sent_in_order_witness:
  "(let sd = \<lparr>readyState = CONNECTING, queue = [], transmitted = [], issued = 0\<rparr>;
        ops = [Send (ConnectionInit None), Send (Subscribe ''a'' ''q''), Send (Ping None),
               Dispose 1, Send (Complete ''a'')];
        s = new_client CONNECTING;
        as = [CallConnectionInit (Some ''{}''), CallComplete ''y'', CallComplete ''y'', CallPing None]
    in readyState sd = CONNECTING \<and> queue sd = [] \<and>
       map p_frame (queue (fold apply_op ops sd)) =
         [ConnectionInit None, Subscribe ''a'' ''q'', Ping None, Complete ''a''] \<and>
       transmitted (fold apply_op ops sd) = [] \<and>
       transmitted (transport_open (fold apply_op ops sd)) =
         [ConnectionInit None, Ping None, Complete ''a''] \<and>
       list_all sending as \<and> sender s = sd \<and>
       transmitted (sender (run (\<lambda>raw. Inl ''bad'') as s)) = [] \<and>
       transmitted (sender (step (\<lambda>raw. Inl ''bad'') SocketOpen (run (\<lambda>raw. Inl ''bad'') as s))) =
         [ConnectionInit (Some ''{}''), Complete ''y'', Ping None])"
  using queued_frames_sent_in_order [of
      "\<lparr>readyState = CONNECTING, queue = [], transmitted = [], issued = 0\<rparr>"
      "[Send (ConnectionInit None), Send (Subscribe ''a'' ''q''), Send (Ping None),
        Dispose 1, Send (Complete ''a'')]"
      "[CallConnectionInit (Some ''{}''), CallComplete ''y'', CallComplete ''y'', CallPing None]"
      "new_client CONNECTING" "\<lambda>raw. Inl ''bad''"]
  by (simp add: Let_def new_client_def connectionInit_def complete_def sender_call_def emit_def)

section \<open>A Complete for another identifier\<close>

text \<open>
  C3.  The claim fails on the code: the completed handler of a subscription is registered
  for every event of the type \<^verbatim>\<open>complete\<close>, once, and only the call of \<^verbatim>\<open>onComplete\<close> in it
  is guarded by the comparison of the identifiers.  Here a client with one subscription,
  of identifier \<^verbatim>\<open>a\<close>, whose Subscribe frame is still queued, receives a Complete for the
  identifier \<^verbatim>\<open>b\<close>: the disposer of the subscription is invoked and its queued frame is
  cancelled, its three closures are removed from the bus, and \<^verbatim>\<open>onComplete\<close> is not
  invoked.  The Subscribe frame is not transmitted when the socket opens, and a later Next
  for \<^verbatim>\<open>a\<close> reaches no callback.
\<close>

theorem foreign_complete_tears_down:
  "(let sub = \<lparr>sub_key = 0, sub_id = ''a'', sub_onNext = Some (Returns 1),
               sub_onError = Some (Returns 2), sub_onComplete = Some (Returns 3),
               sub_dispose = Some 0\<rparr>;
        s = run decodes_foreign
              [CallSubscribe ''a'' ''query'' (Some (Returns 3)) (Some (Returns 2))
                 (Some (Returns 1))] (new_client CONNECTING);
        s' = step decodes_foreign (SocketMessage ''c'') s;
        ev = \<lparr>ev_type = ''complete'', ev_data = Msg (Complete ''b'')\<rparr>
    in listening sub s \<and>
       map p_cancelled (queue (sender s)) = [False] \<and>
       trace s' = trace s @ [Emitted ev, Invoked (CompletedHandler sub) ev, Disposed sub 0] \<and>
       eventTarget s' = [] \<and>
       completedIds s' = {''b''} \<and>
       map p_cancelled (queue (sender s')) = [True] \<and>
       transmitted (sender (step decodes_foreign SocketOpen s')) = [] \<and>
       trace (step decodes_foreign (SocketMessage ''data'') s') =
         trace s' @ [Emitted \<lparr>ev_type = ''next'', ev_data = Msg (Next ''a'' ''data'')\<rparr>])"
  by (simp add: Let_def decodes_foreign_def run_def subscribe_def sender_subscribe_def send_def
      addEventListener_def add_listener_def registered_def new_client_def emit_def listening_def
      socket_on_message_def messageHandler_def onComplete_def onNext_def
      blocked_def block_def dispatchEvent_def inner_invoke_def completedHandler_def
      completeHandler_def disposeSubscribeMessageSending_def dispose_def call_back_def
      slot_call_def removeEventListener_def remove_listener_def socket_on_open_def
      transport_open_def flush_def)

end
